theory Spec2Isabelle
  imports Complex_Main "HOL-Library.AList" "HOL-Library.Product_Lexorder"
begin

section \<open>Python and pandas building blocks\<close>

text \<open>
  The module \<^verbatim>\<open>feature_utils.py\<close> is written against pandas and numpy. The embedding
  keeps the values the functions compute and the exceptions they raise, as pandas 1.x
  computes and raises them:
  a float cell is a \<open>real option\<close> (\<open>None\<close> is NaN), a timestamp is the number of
  seconds since the epoch (the module's \<^verbatim>\<open>DATETIME_FORMAT\<close> has second resolution),
  and a function that can raise returns \<open>error + result\<close>.
\<close>

datatype error = KeyError | ValueError | UnboundLocalError | IndexingError

text \<open>\<^verbatim>\<open>range(a, b)\<close> on Python integers.\<close>

definition py_range :: "int \<Rightarrow> int \<Rightarrow> int list" where
  "py_range a b = [a..b - 1]"

text \<open>\<^verbatim>\<open>str(n)\<close> for a Python integer: decimal digits, a minus sign when negative.\<close>

definition digit_char :: "nat \<Rightarrow> char" where
  "digit_char d = ''0123456789'' ! d"

function string_of_nat :: "nat \<Rightarrow> string" where
  "string_of_nat n =
     (if n < 10 then [digit_char n]
      else string_of_nat (n div 10) @ [digit_char (n mod 10)])"
  by pat_completeness auto
termination
  by (relation "measure id") auto

declare string_of_nat.simps [simp del]

definition str_int :: "int \<Rightarrow> string" where
  "str_int i = (if i < 0 then CHR ''-'' # string_of_nat (nat (- i)) else string_of_nat (nat i))"

text \<open>
  \<^verbatim>\<open>round(series)\<close> on a pandas object rounds to zero decimals with numpy's rule:
  halves go to the even neighbour. NaN stays NaN.
\<close>

definition round_half_even :: "real \<Rightarrow> real" where
  "round_half_even x =
     (let f = \<lfloor>x\<rfloor>; d = x - of_int f
      in if d < 1 / 2 then of_int f
         else if 1 / 2 < d then of_int (f + 1)
         else if even f then of_int f else of_int (f + 1))"

definition py_round :: "real option \<Rightarrow> real option" where
  "py_round = map_option round_half_even"

section \<open>Calendar features\<close>

text \<open>
  A civil timestamp as the \<^verbatim>\<open>.dt\<close> accessors of a datetime column see it.
\<close>

record datetime =
  year :: int
  month :: int
  day :: int
  hour :: int
  minute :: int
  second :: int

text \<open>\<^verbatim>\<open>calendar.isleap\<close>.\<close>

definition isleap :: "int \<Rightarrow> bool" where
  "isleap y = (y mod 4 = 0 \<and> (y mod 100 \<noteq> 0 \<or> y mod 400 = 0))"

definition days_in_month :: "int \<Rightarrow> int \<Rightarrow> int" where
  "days_in_month y m =
     (if m = 2 then (if isleap y then 29 else 28)
      else if m = 4 \<or> m = 6 \<or> m = 9 \<or> m = 11 then 30 else 31)"

definition days_before_month :: "int \<Rightarrow> int \<Rightarrow> int" where
  "days_before_month y m = sum_list (map (days_in_month y) [1..m - 1])"

definition valid_datetime :: "datetime \<Rightarrow> bool" where
  "valid_datetime dt =
     (1 \<le> month dt \<and> month dt \<le> 12 \<and>
      1 \<le> day dt \<and> day dt \<le> days_in_month (year dt) (month dt) \<and>
      0 \<le> hour dt \<and> hour dt \<le> 23 \<and>
      0 \<le> minute dt \<and> minute dt \<le> 59 \<and>
      0 \<le> second dt \<and> second dt \<le> 59)"

text \<open>\<^verbatim>\<open>.dt.dayofyear\<close>: 1 on January 1.\<close>

definition dayofyear :: "datetime \<Rightarrow> int" where
  "dayofyear dt = days_before_month (year dt) (month dt) + day dt"

text \<open>
  Days since 1970-01-01 of a civil date (proleptic Gregorian calendar), and from it
  \<^verbatim>\<open>.dt.dayofweek\<close> (Monday is 0; the epoch was a Thursday) and the midnight of the
  date in seconds since the epoch, which is what \<^verbatim>\<open>pd.to_datetime(col.dt.date)\<close> holds.
\<close>

definition days_from_civil :: "int \<Rightarrow> int \<Rightarrow> int \<Rightarrow> int" where
  "days_from_civil y m d =
     (let y' = (if m \<le> 2 then y - 1 else y);
          era = y' div 400;
          yoe = y' - era * 400;
          doy = (153 * (if 2 < m then m - 3 else m + 9) + 2) div 5 + d - 1;
          doe = yoe * 365 + yoe div 4 - yoe div 100 + doy
      in era * 146097 + doe - 719468)"

definition dayofweek :: "datetime \<Rightarrow> int" where
  "dayofweek dt = (days_from_civil (year dt) (month dt) (day dt) + 3) mod 7"

definition date_of :: "datetime \<Rightarrow> int" where
  "date_of dt = days_from_civil (year dt) (month dt) (day dt) * 86400"

text \<open>The module's constants.\<close>

definition WEEK_DAY_TYPE_MAP :: "(int \<times> int) list" where
  "WEEK_DAY_TYPE_MAP = [(1, 2), (3, 2)]"

definition HOLIDAY_CODE :: int where
  "HOLIDAY_CODE = 7"

definition SEMI_HOLIDAY_CODE :: int where
  "SEMI_HOLIDAY_CODE = 8"

text \<open>\<^verbatim>\<open>DataFrame.replace\<close> with a value map: a mapped value is replaced, others stay.\<close>

definition replace_values :: "(int \<times> int) list \<Rightarrow> int list \<Rightarrow> int list" where
  "replace_values m xs = map (\<lambda>x. case map_of m x of Some y \<Rightarrow> y | None \<Rightarrow> x) xs"

text \<open>
  \<^verbatim>\<open>pd.date_range(start, end, freq="D")\<close> in seconds: \<open>start\<close>, then daily steps while
  not after \<open>end\<close>.
\<close>

definition date_range_D :: "int \<Rightarrow> int \<Rightarrow> int list" where
  "date_range_D start end = map (\<lambda>k. start + k * 86400) [0..(end - start) div 86400]"

text \<open>
  \<^verbatim>\<open>day_type(datetime_col, holiday_col=None, semi_holiday_offset=timedelta(days=1))\<close>.
  The holiday column, when given, is a column of the same frame: a mask of another
  length cannot be aligned and pandas raises. \<open>semi_holiday_offset\<close> is in seconds.
\<close>

definition day_type :: "datetime list \<Rightarrow> real list option \<Rightarrow> int \<Rightarrow> error + int list" where
  "day_type datetime_col holiday_col semi_holiday_offset =
     (let datetype = replace_values WEEK_DAY_TYPE_MAP (map dayofweek datetime_col)
      in case holiday_col of
           None \<Rightarrow> Inr datetype
         | Some hcol \<Rightarrow>
             if length hcol \<noteq> length datetime_col then Inl IndexingError
             else
               let holiday_mask = map (\<lambda>h. 0 < h) hcol;
                   datetype1 = map2 (\<lambda>m v. if m then HOLIDAY_CODE else v) holiday_mask datetype;
                   dates = map date_of datetime_col;
                   holiday_dates = map snd (filter fst (zip holiday_mask dates));
                   semi_holiday_dates =
                     concat (map (\<lambda>d. date_range_D (d - semi_holiday_offset)
                                                      (d + semi_holiday_offset)) holiday_dates);
                   semi_holiday_dates' = filter (\<lambda>d. d \<notin> set holiday_dates) semi_holiday_dates
               in Inr (map2 (\<lambda>d v. if d \<in> set semi_holiday_dates' then SEMI_HOLIDAY_CODE else v)
                        dates datetype1))"

text \<open>
  \<^verbatim>\<open>time_of_year(datetime_col)\<close>: the zero-based hour of the year over the number of
  hours of the year minus one.
\<close>

definition time_of_year :: "datetime list \<Rightarrow> real list" where
  "time_of_year datetime_col =
     map (\<lambda>dt.
            let TimeOfYear = (dayofyear dt - 1) * 24 + hour dt;
                YearLength = (if isleap (year dt) then 366 else 365)
            in real_of_int TimeOfYear / real_of_int (YearLength * 24 - 1))
         datetime_col"

section \<open>Calendar-aware lag offsets\<close>

text \<open>
  The candidate offsets of \<^verbatim>\<open>same_week_day_hour_lag\<close> (in weeks) and of
  \<^verbatim>\<open>same_day_hour_lag\<close> (in days), as the two functions build them.
\<close>

definition week_lag_all :: "int \<Rightarrow> int \<Rightarrow> int list" where
  "week_lag_all n_years week_window =
     (let week_lag_base = 52;
          week_lag_last_year = py_range (week_lag_base - week_window) (week_lag_base + week_window + 1)
      in concat (map (\<lambda>y. map (\<lambda>x. x + y * 52) week_lag_last_year) (py_range 0 n_years)))"

definition day_lag_all :: "int \<Rightarrow> int \<Rightarrow> int list" where
  "day_lag_all n_years day_window =
     (let day_lag_base = 365;
          day_lag_last_year = py_range (day_lag_base - day_window) (day_lag_base + day_window + 1)
      in concat (map (\<lambda>y. map (\<lambda>x. x + y * 365) day_lag_last_year) (py_range 0 n_years)))"

section \<open>Frames\<close>

text \<open>
  A float column is a list of cells, NaN being \<open>None\<close>. A frame is a time index with
  named columns in their order; assigning to a column replaces it in place or appends
  it, and reading a column that does not exist raises \<^verbatim>\<open>KeyError\<close>.
\<close>

type_synonym column = "real option list"

record frame =
  index :: "int list"
  columns :: "(string \<times> column) list"

definition get_col :: "frame \<Rightarrow> string \<Rightarrow> error + column" where
  "get_col df name = (case map_of (columns df) name of None \<Rightarrow> Inl KeyError | Some c \<Rightarrow> Inr c)"

definition set_col :: "frame \<Rightarrow> string \<Rightarrow> column \<Rightarrow> frame" where
  "set_col df name c = df\<lparr>columns := AList.update name c (columns df)\<rparr>"

text \<open>
  \<^verbatim>\<open>pd.DataFrame({"Datetime": datetime_col, "value": value_col})\<close> followed by
  \<^verbatim>\<open>set_index("Datetime")\<close>: columns of different lengths are refused.
\<close>

definition make_frame :: "int list \<Rightarrow> column \<Rightarrow> error + frame" where
  "make_frame datetime_col value_col =
     (if length datetime_col \<noteq> length value_col then Inl ValueError
      else Inr \<lparr>index = datetime_col, columns = [(''value'', value_col)]\<rparr>)"

text \<open>
  The cell a column holds at a timestamp of its index, NaN at a timestamp the index does
  not have.
\<close>

definition value_at :: "int list \<Rightarrow> column \<Rightarrow> int \<Rightarrow> real option" where
  "value_at idx c t = (case map_of (zip idx c) t of None \<Rightarrow> None | Some v \<Rightarrow> v)"

text \<open>\<^verbatim>\<open>min\<close> and \<open>max\<close> of a non-empty sequence (the callers test for emptiness).\<close>

definition py_min :: "'a::linorder list \<Rightarrow> 'a" where
  "py_min xs = fold min (tl xs) (hd xs)"

definition py_max :: "'a::linorder list \<Rightarrow> 'a" where
  "py_max xs = fold max (tl xs) (hd xs)"

text \<open>
  \<^verbatim>\<open>df.loc[labels, "value"].values\<close>: a label that is not in the index raises
  \<^verbatim>\<open>KeyError\<close> (pandas 1.0 and later); a label the index holds several times
  gives all its rows.
\<close>

definition loc_values :: "int list \<Rightarrow> column \<Rightarrow> int list \<Rightarrow> error + column" where
  "loc_values idx vals labels =
     (if \<exists>l \<in> set labels. l \<notin> set idx then Inl KeyError
      else Inr (concat (map (\<lambda>l. map snd (filter (\<lambda>r. fst r = l) (zip idx vals))) labels)))"

text \<open>
  \<^verbatim>\<open>df[col] = np.nan; df.loc[mask, col] = values\<close>: the rows of the mask take the
  values in order, the others stay NaN. The caller has checked that there are as many
  values as rows in the mask.
\<close>

fun fill_mask :: "bool list \<Rightarrow> column \<Rightarrow> column" where
  "fill_mask [] vs = []"
| "fill_mask (True # ms) (v # vs) = v # fill_mask ms vs"
| "fill_mask (True # ms) [] = None # fill_mask ms []"
| "fill_mask (False # ms) vs = None # fill_mask ms vs"

text \<open>
  The rows of a selection of columns, \<^verbatim>\<open>df[cols]\<close> read along \<^verbatim>\<open>axis=1\<close>;
  \<open>collect\<close> runs a list of computations and stops at the first that raises.
\<close>

definition rows_of :: "nat \<Rightarrow> column list \<Rightarrow> column list" where
  "rows_of n cols = map (\<lambda>i. map (\<lambda>c. c ! i) cols) [0..<n]"

fun collect :: "(error + 'a) list \<Rightarrow> error + 'a list" where
  "collect [] = Inr []"
| "collect (x # xs) =
     (case x of
        Inl e \<Rightarrow> Inl e
      | Inr v \<Rightarrow> (case collect xs of Inl e \<Rightarrow> Inl e | Inr vs \<Rightarrow> Inr (v # vs)))"


text \<open>
  \<^verbatim>\<open>mean(axis=1)\<close> skips NaN and is NaN for a row with no value. The row-wise
  \<^verbatim>\<open>quantile\<close> and \<^verbatim>\<open>std\<close> of pandas are library code: the functions below take
  them as the parameters \<open>quantile\<close> and \<open>std\<close>.
\<close>

definition available :: "column \<Rightarrow> real list" where
  "available row = concat (map (\<lambda>c. case c of None \<Rightarrow> [] | Some v \<Rightarrow> [v]) row)"

definition row_mean :: "column \<Rightarrow> real option" where
  "row_mean row =
     (let vs = available row
      in if vs = [] then None else Some (sum_list vs / real (length vs)))"


section \<open>Same-period lags of previous years\<close>

text \<open>
  One lag column of \<^verbatim>\<open>same_week_day_hour_lag\<close> and \<^verbatim>\<open>same_day_hour_lag\<close>: the body
  of their loop for an offset of \<open>delta\<close> seconds.
\<close>

definition lag_column :: "frame \<Rightarrow> int \<Rightarrow> int \<Rightarrow> error + column" where
  "lag_column df min_time_stamp delta =
     (let lag_datetime = map (\<lambda>t. t - delta) (index df);
          valid_lag_mask = map (\<lambda>t. min_time_stamp \<le> t) lag_datetime
      in case get_col df ''value'' of
           Inl e \<Rightarrow> Inl e
         | Inr vals \<Rightarrow>
             (case loc_values (index df) vals (filter (\<lambda>t. min_time_stamp \<le> t) lag_datetime) of
                Inl e \<Rightarrow> Inl e
              | Inr got \<Rightarrow>
                  if length got \<noteq> length (filter id valid_lag_mask) then Inl ValueError
                  else Inr (fill_mask valid_lag_mask got)))"

text \<open>
  One turn of the loop over the candidate offsets. The state is the frame and the list
  \<^verbatim>\<open>week_lag_cols\<close> (\<^verbatim>\<open>day_lag_cols\<close>); \<open>unit\<close> is the length of a week (a day) in
  seconds and \<open>prefix\<close> is \<^verbatim>\<open>"week_lag_"\<close> (\<^verbatim>\<open>"day_lag_"\<close>).
\<close>

definition lag_step ::
  "string \<Rightarrow> int \<Rightarrow> int \<Rightarrow> int \<Rightarrow> error + frame \<times> string list \<Rightarrow> int \<Rightarrow> error + frame \<times> string list"
where
  "lag_step prefix unit min_time_stamp max_time_stamp st w =
     (case st of
        Inl e \<Rightarrow> Inl e
      | Inr (df, lag_cols) \<Rightarrow>
          if min_time_stamp \<le> max_time_stamp - w * unit then
            (let col_name = prefix @ str_int w
             in case lag_column df min_time_stamp (w * unit) of
                  Inl e \<Rightarrow> Inl e
                | Inr c \<Rightarrow> Inr (set_col df col_name c, lag_cols @ [col_name]))
          else Inr (df, lag_cols))"

definition lag_columns ::
  "string \<Rightarrow> int \<Rightarrow> int list \<Rightarrow> int list \<Rightarrow> column \<Rightarrow> error + frame \<times> string list"
where
  "lag_columns prefix unit lag_all datetime_col value_col =
     (if datetime_col = [] then Inl ValueError
      else case make_frame datetime_col value_col of
             Inl e \<Rightarrow> Inl e
           | Inr df \<Rightarrow>
               foldl (lag_step prefix unit (py_min datetime_col) (py_max datetime_col))
                 (Inr (df, [])) lag_all)"

text \<open>
  The chain \<^verbatim>\<open>if agg_func == "mean" and q is None: ... elif ...\<close> that the lag and
  the aggregation functions end with. It has no \<^verbatim>\<open>else\<close>: \<open>None\<close> says that no branch
  applies and nothing is assigned.
\<close>

definition agg_branch ::
  "(real \<Rightarrow> column \<Rightarrow> real option) \<Rightarrow> (column \<Rightarrow> real option) \<Rightarrow> string \<Rightarrow> real option \<Rightarrow>
   (column \<Rightarrow> real option) option"
where
  "agg_branch quantile std agg_func q =
     (if agg_func = ''mean'' \<and> q = None then Some row_mean
      else if agg_func = ''quantile'' \<and> q \<noteq> None then Some (quantile (the q))
      else if agg_func = ''std'' \<and> q = None then Some std
      else None)"




section \<open>Moving aggregates of previous weeks\<close>

text \<open>
  \<^verbatim>\<open>df.asfreq("H")\<close>: the frame is reindexed on the hourly grid from its first to its
  last timestamp; an hour the frame does not hold gets NaN. An empty index has no
  first timestamp and an index with a repeated timestamp cannot be reindexed: pandas
  raises \<^verbatim>\<open>ValueError\<close> for both.
\<close>

definition date_range_H :: "int \<Rightarrow> int \<Rightarrow> int list" where
  "date_range_H start end = map (\<lambda>k. start + k * 3600) [0..(end - start) div 3600]"

definition reindex :: "int list \<Rightarrow> column \<Rightarrow> int list \<Rightarrow> column" where
  "reindex idx c new_index = map (value_at idx c) new_index"

definition asfreq_H :: "frame \<Rightarrow> error + frame" where
  "asfreq_H df =
     (if index df = [] \<or> \<not> distinct (index df) then Inl ValueError
      else
        let new_index = date_range_H (py_min (index df)) (py_max (index df))
        in Inr \<lparr>index = new_index,
                columns = map (\<lambda>(n, c). (n, reindex (index df) c new_index)) (columns df)\<rparr>)"

text \<open>\<^verbatim>\<open>df.sort_index()\<close>: the rows in the order of their timestamps.\<close>

definition sort_index :: "frame \<Rightarrow> frame" where
  "sort_index df =
     (let perm = sort_key (\<lambda>i. index df ! i) [0..<length (index df)]
      in \<lparr>index = map (\<lambda>i. index df ! i) perm,
          columns = map (\<lambda>(n, c). (n, map (\<lambda>i. c ! i) perm)) (columns df)\<rparr>)"

text \<open>
  \<^verbatim>\<open>lambda x: x.days * 24 + x.seconds / 3600\<close> on a time difference of \<open>x\<close> seconds
  (\<^verbatim>\<open>days\<close> is the floor of the difference in days, \<^verbatim>\<open>seconds\<close> the rest).
\<close>

definition timedelta_hours :: "int \<Rightarrow> real" where
  "timedelta_hours x = real_of_int ((x div 86400) * 24) + real_of_int (x mod 86400) / 3600"

text \<open>
  The common start of the four moving-aggregate functions, up to
  \<^verbatim>\<open>max_diff = max(df["fct_diff"])\<close>.
\<close>

definition moving_prepare :: "int list \<Rightarrow> column \<Rightarrow> int \<Rightarrow> error + frame \<times> real" where
  "moving_prepare datetime_col value_col forecast_creation_time =
     (case make_frame datetime_col value_col of
        Inl e \<Rightarrow> Inl e
      | Inr df0 \<Rightarrow>
          (case asfreq_H df0 of
             Inl e \<Rightarrow> Inl e
           | Inr df1 \<Rightarrow>
               let df2 = (if sorted (index df1) then df1 else sort_index df1);
                   fct_diff = map (\<lambda>t. timedelta_hours (t - forecast_creation_time)) (index df2);
                   df3 = set_col df2 ''fct_diff'' (map Some fct_diff)
               in Inr (df3, py_max fct_diff)))"

text \<open>
  The hour lags of one feature: \<^verbatim>\<open>window_size\<close> weeks from \<^verbatim>\<open>week_lag_start\<close>, those
  not beyond \<^verbatim>\<open>max_diff\<close> filtered out.
\<close>

definition hour_lags :: "int \<Rightarrow> int \<Rightarrow> real \<Rightarrow> int list" where
  "hour_lags week_lag_start window_size max_diff =
     filter (\<lambda>h. max_diff < real_of_int h)
       (map (\<lambda>w. (week_lag_start + w) * 24 * 7) (py_range 0 window_size))"

text \<open>\<^verbatim>\<open>Series.shift(h)\<close>: row \<open>j\<close> takes the value of row \<open>j - h\<close>, NaN outside the frame.\<close>

definition shift :: "int \<Rightarrow> column \<Rightarrow> column" where
  "shift h xs =
     map (\<lambda>j. let k = int j - h in if 0 \<le> k \<and> k < int (length xs) then xs ! nat k else None)
       [0..<length xs]"

text \<open>
  \<^verbatim>\<open>tmp_df[tmp_col_all]\<close>: the copy of the value column shifted by each hour lag. The
  temporary columns are named \<^verbatim>\<open>tmp_lag_h\<close> for pairwise different \<open>h\<close>, so selecting
  them by name gives the shifted columns in the order of the lags.
\<close>

definition lagged_columns :: "frame \<Rightarrow> int list \<Rightarrow> error + column list" where
  "lagged_columns df hs =
     (case get_col df ''value'' of Inl e \<Rightarrow> Inl e | Inr v \<Rightarrow> Inr (map (\<lambda>h. shift h v) hs))"

definition drop_cols :: "frame \<Rightarrow> string list \<Rightarrow> frame" where
  "drop_cols df names = df\<lparr>columns := filter (\<lambda>(n, c). n \<notin> set names) (columns df)\<rparr>"

text \<open>
  One turn of the loop of \<^verbatim>\<open>same_day_hour_moving_average\<close> and
  \<^verbatim>\<open>same_day_hour_moving_std\<close>: the output column is assigned inside
  \<^verbatim>\<open>if len(hour_lags) > 0\<close>.
\<close>

definition guarded_step ::
  "(column \<Rightarrow> real option) \<Rightarrow> string \<Rightarrow> int \<Rightarrow> int \<Rightarrow> real \<Rightarrow> error + frame \<Rightarrow> int \<Rightarrow> error + frame"
where
  "guarded_step agg output_col_prefix window_size start_week max_diff st i =
     (case st of
        Inl e \<Rightarrow> Inl e
      | Inr df \<Rightarrow>
          let output_col = output_col_prefix @ str_int (start_week + i);
              week_lag_start = start_week + i;
              hs = hour_lags week_lag_start window_size max_diff
          in if 0 < length hs then
               (case lagged_columns df hs of
                  Inl e \<Rightarrow> Inl e
                | Inr cs \<Rightarrow>
                    Inr (set_col df output_col
                           (map (\<lambda>r. py_round (agg r)) (rows_of (length (index df)) cs))))
             else Inr df)"

text \<open>
  One turn of the loop of \<^verbatim>\<open>same_day_hour_moving_quantile\<close> and
  \<^verbatim>\<open>same_day_hour_moving_agg\<close>: the output column is assigned after the
  \<^verbatim>\<open>if len(hour_lags) > 0\<close> block, from the variables \<^verbatim>\<open>tmp_df\<close> and \<^verbatim>\<open>tmp_col_all\<close>
  as the last turn that entered the block left them. They are local variables of the
  function, unbound (\<open>None\<close>) until a turn enters the block; reading them unbound raises
  \<^verbatim>\<open>UnboundLocalError\<close>. \<open>assign\<close> is the reduction of the branch of the
  \<^verbatim>\<open>(agg_func, q)\<close> chain that applies, \<open>None\<close> when no branch does.
\<close>

definition unguarded_step ::
  "(column \<Rightarrow> real option) option \<Rightarrow> string \<Rightarrow> int \<Rightarrow> int \<Rightarrow> real \<Rightarrow>
   error + frame \<times> column list option \<Rightarrow> int \<Rightarrow> error + frame \<times> column list option"
where
  "unguarded_step assign output_col_prefix window_size start_week max_diff st i =
     (case st of
        Inl e \<Rightarrow> Inl e
      | Inr (df, tmp) \<Rightarrow>
          let output_col = output_col_prefix @ str_int (start_week + i);
              week_lag_start = start_week + i;
              hs = hour_lags week_lag_start window_size max_diff
          in case (if 0 < length hs then map_sum id Some (lagged_columns df hs) else Inr tmp) of
               Inl e \<Rightarrow> Inl e
             | Inr tmp' \<Rightarrow>
                 (case assign of
                    None \<Rightarrow> Inr (df, tmp')
                  | Some agg \<Rightarrow>
                      (case tmp' of
                         None \<Rightarrow> Inl UnboundLocalError
                       | Some cs \<Rightarrow>
                           Inr (set_col df output_col
                                  (map (\<lambda>r. py_round (agg r)) (rows_of (length (index df)) cs)),
                                tmp'))))"

definition moving_guarded ::
  "(column \<Rightarrow> real option) \<Rightarrow> int list \<Rightarrow> column \<Rightarrow> int \<Rightarrow> int \<Rightarrow> int \<Rightarrow> int \<Rightarrow> string \<Rightarrow>
   error + frame"
where
  "moving_guarded agg datetime_col value_col window_size start_week count forecast_creation_time
       output_col_prefix =
     (case moving_prepare datetime_col value_col forecast_creation_time of
        Inl e \<Rightarrow> Inl e
      | Inr (df, max_diff) \<Rightarrow>
          (case foldl (guarded_step agg output_col_prefix window_size start_week max_diff)
                  (Inr df) (py_range 0 count) of
             Inl e \<Rightarrow> Inl e
           | Inr df' \<Rightarrow> Inr (drop_cols df' [''fct_diff'', ''value''])))"

definition moving_unguarded ::
  "(column \<Rightarrow> real option) option \<Rightarrow> int list \<Rightarrow> column \<Rightarrow> int \<Rightarrow> int \<Rightarrow> int \<Rightarrow> int \<Rightarrow> string \<Rightarrow>
   error + frame"
where
  "moving_unguarded assign datetime_col value_col window_size start_week count
       forecast_creation_time output_col_prefix =
     (case moving_prepare datetime_col value_col forecast_creation_time of
        Inl e \<Rightarrow> Inl e
      | Inr (df, max_diff) \<Rightarrow>
          (case foldl (unguarded_step assign output_col_prefix window_size start_week max_diff)
                  (Inr (df, None)) (py_range 0 count) of
             Inl e \<Rightarrow> Inl e
           | Inr (df', tmp) \<Rightarrow> Inr (drop_cols df' [''fct_diff'', ''value''])))"

definition same_day_hour_moving_average ::
  "int list \<Rightarrow> column \<Rightarrow> int \<Rightarrow> int \<Rightarrow> int \<Rightarrow> int \<Rightarrow> string \<Rightarrow> error + frame"
where
  "same_day_hour_moving_average datetime_col value_col window_size start_week average_count
       forecast_creation_time output_col_prefix =
     moving_guarded row_mean datetime_col value_col window_size start_week average_count
       forecast_creation_time output_col_prefix"

definition same_day_hour_moving_quantile ::
  "(real \<Rightarrow> column \<Rightarrow> real option) \<Rightarrow>
   int list \<Rightarrow> column \<Rightarrow> int \<Rightarrow> int \<Rightarrow> int \<Rightarrow> real \<Rightarrow> int \<Rightarrow> string \<Rightarrow> error + frame"
where
  "same_day_hour_moving_quantile quantile datetime_col value_col window_size start_week
       quantile_count q forecast_creation_time output_col_prefix =
     moving_unguarded (Some (quantile q)) datetime_col value_col window_size start_week
       quantile_count forecast_creation_time output_col_prefix"

definition same_day_hour_moving_std ::
  "(column \<Rightarrow> real option) \<Rightarrow>
   int list \<Rightarrow> column \<Rightarrow> int \<Rightarrow> int \<Rightarrow> int \<Rightarrow> int \<Rightarrow> string \<Rightarrow> error + frame"
where
  "same_day_hour_moving_std std datetime_col value_col window_size start_week std_count
       forecast_creation_time output_col_prefix =
     moving_guarded std datetime_col value_col window_size start_week std_count
       forecast_creation_time output_col_prefix"

definition same_day_hour_moving_agg ::
  "(real \<Rightarrow> column \<Rightarrow> real option) \<Rightarrow> (column \<Rightarrow> real option) \<Rightarrow>
   int list \<Rightarrow> column \<Rightarrow> int \<Rightarrow> int \<Rightarrow> int \<Rightarrow> int \<Rightarrow> string \<Rightarrow> real option \<Rightarrow> string \<Rightarrow> error + frame"
where
  "same_day_hour_moving_agg quantile std datetime_col value_col window_size start_week count
       forecast_creation_time agg_func q output_col_prefix =
     moving_unguarded (agg_branch quantile std agg_func q) datetime_col value_col window_size
       start_week count forecast_creation_time output_col_prefix"

section \<open>Sequence arrays\<close>

text \<open>
  The frames of the sequence builders are read row by row: a row maps column names to
  cells, and selecting a column that a row does not have raises \<^verbatim>\<open>KeyError\<close>. The
  final \<^verbatim>\<open>astype(np.float32)\<close> changes the cells' precision only and is left out.
\<close>

type_synonym 'a table = "(string \<times> 'a) list list"

definition cell :: "(string \<times> 'a) list \<Rightarrow> string \<Rightarrow> error + 'a" where
  "cell row name = (case map_of row name of None \<Rightarrow> Inl KeyError | Some v \<Rightarrow> Inr v)"

text \<open>\<^verbatim>\<open>df[name]\<close> and \<^verbatim>\<open>df[seq_cols].values\<close>.\<close>

definition column_values :: "'a table \<Rightarrow> string \<Rightarrow> error + 'a list" where
  "column_values df name = collect (map (\<lambda>row. cell row name) df)"

definition select_values :: "'a table \<Rightarrow> string list \<Rightarrow> error + 'a list list" where
  "select_values df seq_cols = collect (map (\<lambda>row. collect (map (cell row) seq_cols)) df)"

text \<open>
  The slice \<^verbatim>\<open>a[start:stop]\<close>: a negative bound counts from the end and both bounds
  are clamped to the array.
\<close>

definition py_slice :: "'a list \<Rightarrow> int \<Rightarrow> int \<Rightarrow> 'a list" where
  "py_slice xs start stop =
     (let n = int (length xs);
          clamp = (\<lambda>i. if i < 0 then max (i + n) 0 else min i n);
          a = clamp start;
          b = clamp stop
      in take (nat (b - a)) (drop (nat a) xs))"

text \<open>
  \<^verbatim>\<open>gen_sequence(df, seq_len, seq_cols, start_timestep=0, end_timestep=None)\<close>; the
  generator is modelled by the list of the windows it yields.
\<close>

definition gen_sequence ::
  "'a table \<Rightarrow> int \<Rightarrow> string list \<Rightarrow> int \<Rightarrow> int option \<Rightarrow> error + 'a list list list"
where
  "gen_sequence df seq_len seq_cols start_timestep end_timestep =
     (case select_values df seq_cols of
        Inl e \<Rightarrow> Inl e
      | Inr data_array \<Rightarrow>
          let end_timestep' = (case end_timestep of None \<Rightarrow> int (length df) | Some e \<Rightarrow> e)
          in Inr (map (\<lambda>(start, stop). py_slice data_array start stop)
                    (zip (py_range start_timestep (end_timestep' - seq_len + 2))
                         (py_range (start_timestep + seq_len) (end_timestep' + 2)))))"

text \<open>\<^verbatim>\<open>Series.unique()\<close>: the distinct values in the order of their first appearance.\<close>

definition unique :: "'a list \<Rightarrow> 'a list" where
  "unique xs = rev (remdups (rev xs))"

text \<open>
  The entities \<^verbatim>\<open>gen_sequence_array\<close> iterates:
  \<^verbatim>\<open>itertools.product(df_all[grain1_name].unique(), df_all[grain2_name].unique())\<close>.
\<close>

definition grain_product :: "'a table \<Rightarrow> string \<Rightarrow> string \<Rightarrow> error + ('a \<times> 'a) list" where
  "grain_product df_all grain1_name grain2_name =
     (case column_values df_all grain1_name of
        Inl e \<Rightarrow> Inl e
      | Inr c1 \<Rightarrow>
          (case column_values df_all grain2_name of
             Inl e \<Rightarrow> Inl e
           | Inr c2 \<Rightarrow> Inr (List.product (unique c1) (unique c2))))"

text \<open>
  \<^verbatim>\<open>np.concatenate\<close> of the entities' window lists. Each list becomes an array, which
  needs windows of one shape; the arrays are joined along the first axis, which needs
  arrays of the same rank and window shape: an entity without windows is an array of
  rank 1 and joins only with other such arrays. No array at all is an error.
\<close>

definition np_concatenate :: "'a list list list list \<Rightarrow> error + 'a list list list" where
  "np_concatenate arrs =
     (if arrs = [] then Inl ValueError
      else if \<forall>a \<in> set arrs. a = [] then Inr []
      else if \<exists>a \<in> set arrs. a = [] then Inl ValueError
      else if \<exists>a \<in> set arrs. \<exists>w \<in> set a. length w \<noteq> length (hd (hd arrs)) then Inl ValueError
      else Inr (concat arrs))"

definition gen_sequence_array ::
  "'a table \<Rightarrow> int \<Rightarrow> string list \<Rightarrow> string \<Rightarrow> string \<Rightarrow> int \<Rightarrow> int option \<Rightarrow> error + 'a list list list"
where
  "gen_sequence_array df_all seq_len seq_cols grain1_name grain2_name start_timestep end_timestep =
     (case grain_product df_all grain1_name grain2_name of
        Inl e \<Rightarrow> Inl e
      | Inr grains \<Rightarrow>
          (case collect
                  (map (\<lambda>(grain1, grain2).
                          gen_sequence
                            (filter (\<lambda>row. cell row grain1_name = Inr grain1 \<and>
                                            cell row grain2_name = Inr grain2) df_all)
                            seq_len seq_cols start_timestep end_timestep)
                     grains) of
             Inl e \<Rightarrow> Inl e
           | Inr seq_gen \<Rightarrow> np_concatenate seq_gen))"

text \<open>
  The keys of the rows, and the groups of
  \<^verbatim>\<open>df_all.groupby([grain1_name, grain2_name])\<close>: the pairs of keys that occur in the
  frame, in sorted order.
\<close>

definition grain_keys :: "'a table \<Rightarrow> string \<Rightarrow> string \<Rightarrow> error + ('a \<times> 'a) list" where
  "grain_keys df_all grain1_name grain2_name =
     collect (map (\<lambda>row. case cell row grain1_name of
                            Inl e \<Rightarrow> Inl e
                          | Inr a \<Rightarrow> (case cell row grain2_name of
                                        Inl e \<Rightarrow> Inl e
                                      | Inr b \<Rightarrow> Inr (a, b))) df_all)"

definition groupby_grains ::
  "('a::linorder) table \<Rightarrow> string \<Rightarrow> string \<Rightarrow> error + ('a \<times> 'a) list"
where
  "groupby_grains df_all grain1_name grain2_name =
     map_sum id (\<lambda>keys. sort (remdups keys)) (grain_keys df_all grain1_name grain2_name)"

text \<open>
  \<^verbatim>\<open>static_feature_array\<close>:
  \<^verbatim>\<open>groupby(...).apply(lambda x: x.iloc[:total_timesteps, :]).reset_index(drop=True)\<close>,
  then the selected columns. In the pandas versions the module runs on (before 2.0: it
  uses \<^verbatim>\<open>Index.is_monotonic\<close> and \<^verbatim>\<open>dt.week\<close>) \<^verbatim>\<open>apply\<close> joins the groups' results in
  the order of the groups, unless every result has the index of its group: then it
  restores the order of the rows of the frame. The result of a group has the index of
  the group when the slice leaves out none of its rows.
\<close>

definition static_feature_array ::
  "('a::linorder) table \<Rightarrow> int \<Rightarrow> string list \<Rightarrow> string \<Rightarrow> string \<Rightarrow> error + 'a list list"
where
  "static_feature_array df_all total_timesteps seq_cols grain1_name grain2_name =
     (case groupby_grains df_all grain1_name grain2_name of
        Inl e \<Rightarrow> Inl e
      | Inr groups \<Rightarrow>
          let chunks = map (\<lambda>(grain1, grain2).
                              filter (\<lambda>row. cell row grain1_name = Inr grain1 \<and>
                                              cell row grain2_name = Inr grain2) df_all)
                         groups;
              results = map (\<lambda>x. py_slice x 0 total_timesteps) chunks;
              fea_df = (if \<forall>x \<in> set chunks. length (py_slice x 0 total_timesteps) = length x
                        then df_all
                        else concat results)
          in select_values fea_df seq_cols)"

section \<open>Reference definitions\<close>


text \<open>
  The aligned values of a target row, as the specification describes them: for every
  candidate offset the value the series holds at the row's timestamp minus the offset,
  missing when that instant precedes the earliest timestamp of the series. \<open>unit\<close> is
  the length of one offset step in seconds.
\<close>

definition aligned_values :: "int list \<Rightarrow> column \<Rightarrow> int \<Rightarrow> int list \<Rightarrow> int \<Rightarrow> column" where
  "aligned_values idx vals unit offsets t =
     map (\<lambda>w. if py_min idx \<le> t - w * unit then value_at idx vals (t - w * unit) else None) offsets"

text \<open>
  What the forecast creation time must hide. Two value columns over the same
  timestamps agree before \<open>fct\<close> when they hold the same cell in every row whose
  timestamp is strictly before \<open>fct\<close>; two frames agree before \<open>fct\<close> when they have
  the same index and the same columns, except that their \<^verbatim>\<open>value\<close> columns need only
  agree before \<open>fct\<close>.
\<close>

definition agree_before :: "int list \<Rightarrow> int \<Rightarrow> column \<Rightarrow> column \<Rightarrow> bool" where
  "agree_before idx fct a b =
     (length a = length idx \<and> length b = length idx \<and>
      (\<forall>i < length idx. idx ! i < fct \<longrightarrow> a ! i = b ! i))"

definition frames_agree_before :: "int \<Rightarrow> frame \<Rightarrow> frame \<Rightarrow> bool" where
  "frames_agree_before fct df1 df2 =
     (index df1 = index df2 \<and>
      list_all2 (\<lambda>(n1, c1) (n2, c2).
                   n1 = n2 \<and> (if n1 = ''value'' then agree_before (index df1) fct c1 c2 else c1 = c2))
        (columns df1) (columns df2))"

section \<open>Properties of the calendar features\<close>

lemma replace_week_day_type:
  "0 \<le> x \<Longrightarrow> x < 7 \<Longrightarrow>
   (case map_of WEEK_DAY_TYPE_MAP x of Some y \<Rightarrow> y | None \<Rightarrow> x) \<in> {0, 2, 4, 5, 6}"
proof -
  assume "0 \<le> x" "x < 7"
  then have "x = 0 \<or> x = 1 \<or> x = 2 \<or> x = 3 \<or> x = 4 \<or> x = 5 \<or> x = 6" by arith
  then show ?thesis by (auto simp: WEEK_DAY_TYPE_MAP_def)
qed

lemma dayofweek_range: "0 \<le> dayofweek dt \<and> dayofweek dt < 7"
  by (simp add: dayofweek_def)

lemma dayofyear_bounds:
  assumes "valid_datetime dt"
  shows "1 \<le> dayofyear dt \<and> dayofyear dt \<le> (if isleap (year dt) then 366 else 365)"
proof -
  from assms have "1 \<le> month dt" "month dt \<le> 12"
    unfolding valid_datetime_def by auto
  then have m: "month dt \<in> {1,2,3,4,5,6,7,8,9,10,11,12}" by (simp; arith)
  show ?thesis using assms m
    unfolding valid_datetime_def dayofyear_def days_before_month_def days_in_month_def
    by (auto simp: upto.simps)
qed

lemma dayofyear_dec31:
  "month dt = 12 \<Longrightarrow> day dt = 31 \<Longrightarrow> dayofyear dt = (if isleap (year dt) then 366 else 365)"
  unfolding dayofyear_def days_before_month_def days_in_month_def
  by (simp add: upto.simps)

lemma time_of_year_row_range:
  assumes "valid_datetime dt"
  defines "L \<equiv> (if isleap (year dt) then 366 else 365)"
  shows "0 \<le> real_of_int ((dayofyear dt - 1) * 24 + hour dt) / real_of_int (L * 24 - 1)"
    and "real_of_int ((dayofyear dt - 1) * 24 + hour dt) / real_of_int (L * 24 - 1) \<le> 1"
proof -
  have d: "1 \<le> dayofyear dt" "dayofyear dt \<le> L"
    using dayofyear_bounds[OF assms(1)] by (simp_all add: L_def)
  have h: "0 \<le> hour dt" "hour dt \<le> 23" using assms(1) by (simp_all add: valid_datetime_def)
  have Lpos: "0 < L * 24 - 1" by (simp add: L_def)
  have num0: "0 \<le> (dayofyear dt - 1) * 24 + hour dt" using d h by simp
  have num1: "(dayofyear dt - 1) * 24 + hour dt \<le> L * 24 - 1" using d h by simp
  show "0 \<le> real_of_int ((dayofyear dt - 1) * 24 + hour dt) / real_of_int (L * 24 - 1)"
    using num0 Lpos by simp
  have "real_of_int ((dayofyear dt - 1) * 24 + hour dt) \<le> real_of_int (L * 24 - 1)"
    using num1 by linarith
  then show "real_of_int ((dayofyear dt - 1) * 24 + hour dt) / real_of_int (L * 24 - 1) \<le> 1"
    using Lpos by (simp add: divide_le_eq)
qed

text \<open>
  Claim C8. For a column of valid timestamps, every entry of \<open>time_of_year\<close> is
  \<open>((dayofyear - 1) * 24 + hour) / (hours_in_year - 1)\<close> with \<open>hours_in_year\<close> being
  \<open>366 * 24\<close> in a leap year and \<open>365 * 24\<close> otherwise; it lies in \<open>[0, 1]\<close>; and at
  December 31, 23:00 of a non-leap year it is exactly 1.
\<close>

theorem time_of_year_fraction:
  assumes "\<forall>dt \<in> set datetime_col. valid_datetime dt" and "i < length datetime_col"
  defines "dt \<equiv> datetime_col ! i"
  defines "hours_in_year \<equiv> (if isleap (year dt) then 366 * 24 else 365 * 24)"
  shows "length (time_of_year datetime_col) = length datetime_col \<and>
         time_of_year datetime_col ! i =
           real_of_int ((dayofyear dt - 1) * 24 + hour dt) / real_of_int (hours_in_year - 1) \<and>
         0 \<le> time_of_year datetime_col ! i \<and> time_of_year datetime_col ! i \<le> 1 \<and>
         (\<not> isleap (year dt) \<and> month dt = 12 \<and> day dt = 31 \<and> hour dt = 23
            \<longrightarrow> time_of_year datetime_col ! i = 1)"
proof -
  have v: "valid_datetime dt" using assms(1,2) by (simp add: dt_def)
  have eq: "time_of_year datetime_col ! i =
      real_of_int ((dayofyear dt - 1) * 24 + hour dt) /
      real_of_int ((if isleap (year dt) then 366 else 365) * 24 - 1)"
    using assms(2) by (simp add: time_of_year_def Let_def dt_def)
  have hy: "hours_in_year = (if isleap (year dt) then 366 else 365) * 24"
    by (simp add: hours_in_year_def)
  have last: "time_of_year datetime_col ! i = 1"
    if "\<not> isleap (year dt)" "month dt = 12" "day dt = 31" "hour dt = 23"
    using that dayofyear_dec31[of dt] by (simp add: eq)
  show ?thesis
    using eq time_of_year_row_range[OF v] last
    by (simp add: hy time_of_year_def)
qed

theorem time_of_year_fraction_witness:
  "time_of_year [\<lparr>year = 2023, month = 12, day = 31, hour = 23, minute = 0, second = 0\<rparr>,
                 \<lparr>year = 2024, month = 1, day = 1, hour = 0, minute = 0, second = 0\<rparr>] ! 0 = 1 \<and>
   time_of_year [\<lparr>year = 2023, month = 12, day = 31, hour = 23, minute = 0, second = 0\<rparr>,
                 \<lparr>year = 2024, month = 1, day = 1, hour = 0, minute = 0, second = 0\<rparr>] ! 1 \<le> 1"
proof -
  let ?col = "[\<lparr>year = 2023, month = 12, day = 31, hour = 23, minute = 0, second = 0\<rparr>,
               \<lparr>year = 2024, month = 1, day = 1, hour = 0, minute = 0, second = 0\<rparr>]"
  have v: "\<forall>dt \<in> set ?col. valid_datetime dt"
    by (simp add: valid_datetime_def days_in_month_def isleap_def)
  have l0: "0 < length ?col" and l1: "1 < length ?col" by simp_all
  have n: "\<not> isleap (year (?col ! 0)) \<and> month (?col ! 0) = 12 \<and> day (?col ! 0) = 31 \<and>
           hour (?col ! 0) = 23"
    by (simp add: isleap_def)
  have "time_of_year ?col ! 0 = 1"
    using time_of_year_fraction[OF v l0] n by blast
  moreover have "time_of_year ?col ! 1 \<le> 1"
    using time_of_year_fraction[OF v l1] by blast
  ultimately show ?thesis by blast
qed

text \<open>
  Claim C10. Without a holiday column \<open>day_type\<close> returns one code per row, each in
  \<open>{0, 2, 4, 5, 6}\<close>: the codes 7 and 8 are only ever written in the branch that a
  supplied holiday column opens.
\<close>

theorem day_type_plain:
  "\<exists>xs. day_type datetime_col None off = Inr xs \<and> length xs = length datetime_col \<and>
        set xs \<subseteq> {0, 2, 4, 5, 6}"
proof -
  have "set (replace_values WEEK_DAY_TYPE_MAP (map dayofweek datetime_col)) \<subseteq> {0, 2, 4, 5, 6}"
    unfolding replace_values_def
    using replace_week_day_type dayofweek_range by (auto simp del: insert_iff)
  then show ?thesis by (simp add: day_type_def replace_values_def)
qed

section \<open>Properties of the lag offsets\<close>

lemma set_lag_offsets:
  "set (concat (map (\<lambda>y. map (\<lambda>x. x + y * b) (py_range (b - w) (b + w + 1))) (py_range 0 Y)))
   = {b * (y + 1) + k | y k. 0 \<le> y \<and> y < Y \<and> - w \<le> k \<and> k \<le> w}" (is "?L = ?R")
proof (rule set_eqI)
  fix x :: int
  have "x \<in> ?L \<longleftrightarrow> (\<exists>y x'. 0 \<le> y \<and> y < Y \<and> b - w \<le> x' \<and> x' \<le> b + w \<and> x = x' + y * b)"
  proof
    assume "x \<in> ?L"
    then obtain y where y: "y \<in> {0..Y - 1}" "x \<in> (\<lambda>x. x + y * b) ` {b - w..b + w + 1 - 1}"
      unfolding py_range_def by auto
    then obtain x' where "x' \<in> {b - w..b + w + 1 - 1}" "x = x' + y * b" by blast
    with y(1) show "\<exists>y x'. 0 \<le> y \<and> y < Y \<and> b - w \<le> x' \<and> x' \<le> b + w \<and> x = x' + y * b"
      by (intro exI[of _ y] exI[of _ x']) simp
  next
    assume "\<exists>y x'. 0 \<le> y \<and> y < Y \<and> b - w \<le> x' \<and> x' \<le> b + w \<and> x = x' + y * b"
    then obtain y x' where h: "0 \<le> y" "y < Y" "b - w \<le> x'" "x' \<le> b + w" "x = x' + y * b"
      by blast
    have "y \<in> {0..Y - 1}" using h(1,2) by simp
    moreover have "x \<in> (\<lambda>x. x + y * b) ` {b - w..b + w + 1 - 1}"
      using h(3,4,5) by (intro image_eqI[of _ _ x']) simp_all
    ultimately show "x \<in> ?L" unfolding py_range_def by auto
  qed
  also have "\<dots> \<longleftrightarrow> (\<exists>y k. 0 \<le> y \<and> y < Y \<and> - w \<le> k \<and> k \<le> w \<and> x = b * (y + 1) + k)"
  proof
    assume "\<exists>y x'. 0 \<le> y \<and> y < Y \<and> b - w \<le> x' \<and> x' \<le> b + w \<and> x = x' + y * b"
    then obtain y x' where h: "0 \<le> y" "y < Y" "b - w \<le> x'" "x' \<le> b + w" "x = x' + y * b"
      by blast
    have "x = b * (y + 1) + (x' - b)" using h(5) by (simp add: algebra_simps)
    moreover have "- w \<le> x' - b" "x' - b \<le> w" using h(3,4) by simp_all
    ultimately show "\<exists>y k. 0 \<le> y \<and> y < Y \<and> - w \<le> k \<and> k \<le> w \<and> x = b * (y + 1) + k"
      using h(1,2) by blast
  next
    assume "\<exists>y k. 0 \<le> y \<and> y < Y \<and> - w \<le> k \<and> k \<le> w \<and> x = b * (y + 1) + k"
    then obtain y k where h: "0 \<le> y" "y < Y" "- w \<le> k" "k \<le> w" "x = b * (y + 1) + k"
      by blast
    have "x = (b + k) + y * b" using h(5) by (simp add: algebra_simps)
    moreover have "b - w \<le> b + k" "b + k \<le> b + w" using h(3,4) by simp_all
    ultimately show "\<exists>y x'. 0 \<le> y \<and> y < Y \<and> b - w \<le> x' \<and> x' \<le> b + w \<and> x = x' + y * b"
      using h(1,2) by blast
  qed
  finally show "x \<in> ?L \<longleftrightarrow> x \<in> ?R" by blast
qed

text \<open>
  Claim C4, as the code has it. The candidate offsets of \<open>same_week_day_hour_lag\<close> are
  \<open>52 * (y + 1) + k\<close> for \<open>y\<close> in \<open>[0, Y)\<close> and \<open>k\<close> in \<open>[-w, w]\<close>: the first year back
  is centred on 52 weeks, not on 0. \<open>same_day_hour_lag\<close> does the same with base 365.
\<close>

theorem lag_offsets_sets:
  "set (week_lag_all Y w) = {52 * (y + 1) + k | y k. 0 \<le> y \<and> y < Y \<and> - w \<le> k \<and> k \<le> w} \<and>
   set (day_lag_all Y w) = {365 * (y + 1) + k | y k. 0 \<le> y \<and> y < Y \<and> - w \<le> k \<and> k \<le> w}"
  unfolding week_lag_all_def day_lag_all_def Let_def
  using set_lag_offsets[of 52 w Y] set_lag_offsets[of 365 w Y] by simp

text \<open>
  The set \<open>{52 * y + k}\<close> with \<open>y\<close> in \<open>[0, Y)\<close> is not what the code builds: for one
  year and a window of one week it contains the offset 0, while the code's offsets are
  51, 52 and 53.
\<close>

theorem lag_offsets_counterexample:
  "set (week_lag_all 1 1) \<noteq> {52 * y + k | y k. 0 \<le> y \<and> y < 1 \<and> - 1 \<le> k \<and> k \<le> (1::int)}"
proof -
  have "(0::int) \<in> {52 * y + k | y k. 0 \<le> y \<and> y < 1 \<and> - 1 \<le> k \<and> k \<le> (1::int)}"
    by (intro CollectI exI[of _ 0]) simp
  moreover have "(0::int) \<notin> set (week_lag_all 1 1)"
    by (simp add: week_lag_all_def py_range_def upto.simps)
  ultimately show ?thesis by blast
qed

section \<open>Properties of the sequence builders\<close>

lemma zip_upto_shift: "zip [a..c] [a + L..c + L] = map (\<lambda>i. (i, i + L)) [a..c]"
proof (induction a c rule: upto.induct)
  case (1 i j)
  show ?case
  proof (cases "i \<le> j")
    case True
    then have "[i..j] = i # [i + 1..j]" "[i + L..j + L] = (i + L) # [i + 1 + L..j + L]"
      by (simp_all add: upto_rec1 add.commute add.left_commute)
    then show ?thesis using 1 True by (simp add: add.commute add.left_commute)
  next
    case False
    then show ?thesis by simp
  qed
qed

lemma py_slice_window:
  assumes "0 \<le> i" "0 \<le> L" "i + L \<le> int (length xs)"
  shows "py_slice xs i (i + L) = take (nat L) (drop (nat i) xs)"
    and "length (py_slice xs i (i + L)) = nat L"
  using assms by (auto simp: py_slice_def Let_def min_def)

lemma collect_Inr_iff: "collect xs = Inr ys \<longleftrightarrow> xs = map Inr ys"
proof (induction xs arbitrary: ys)
  case Nil
  show ?case by auto
next
  case (Cons x xs)
  show ?case
  proof (cases x)
    case (Inl e)
    then show ?thesis by auto
  next
    case (Inr v)
    show ?thesis
    proof (cases "collect xs")
      case (Inl e)
      with Cons[of "tl ys"] Inr show ?thesis by (cases ys) auto
    next
      case r: (Inr vs)
      with Cons[of vs] Cons[of "tl ys"] Inr show ?thesis by (cases ys) auto
    qed
  qed
qed

lemma select_values_length:
  "select_values df seq_cols = Inr data_array \<Longrightarrow> length data_array = length df"
  unfolding select_values_def collect_Inr_iff
  by (metis length_map)

text \<open>
  With a last time step \<open>end_timestep\<close> inside the frame, \<open>gen_sequence\<close> yields one
  window for every \<open>i\<close> from \<open>start_timestep\<close> to \<open>end_timestep - seq_len + 1\<close>, and the
  window of \<open>i\<close> is the \<open>seq_len\<close> rows \<open>i\<close> to \<open>i + seq_len - 1\<close> of the selected
  columns.
\<close>

theorem gen_sequence_windows:
  assumes "select_values df seq_cols = Inr data_array"
    and "0 \<le> seq_len" and "0 \<le> start_timestep" and "end_timestep < int (length df)"
  shows "gen_sequence df seq_len seq_cols start_timestep (Some end_timestep) =
           Inr (map (\<lambda>i. take (nat seq_len) (drop (nat i) data_array))
                  [start_timestep..end_timestep - seq_len + 1]) \<and>
         (\<forall>i \<in> {start_timestep..end_timestep - seq_len + 1}.
            length (take (nat seq_len) (drop (nat i) data_array)) = nat seq_len)"
proof -
  have n: "length data_array = length df" by (rule select_values_length[OF assms(1)])
  have win: "py_slice data_array i (i + seq_len) = take (nat seq_len) (drop (nat i) data_array) \<and>
             length (take (nat seq_len) (drop (nat i) data_array)) = nat seq_len"
    if "i \<in> set [start_timestep..end_timestep - seq_len + 1]" for i
  proof -
    from that assms(3,4) have "0 \<le> i" "i + seq_len \<le> int (length data_array)"
      by (simp_all add: n)
    from py_slice_window[OF this(1) assms(2) this(2)] show ?thesis by simp
  qed
  have z: "zip (py_range start_timestep (end_timestep - seq_len + 2))
               (py_range (start_timestep + seq_len) (end_timestep + 2)) =
           map (\<lambda>i. (i, i + seq_len)) [start_timestep..end_timestep - seq_len + 1]"
  proof -
    have "py_range start_timestep (end_timestep - seq_len + 2) =
          [start_timestep..end_timestep - seq_len + 1]"
      unfolding py_range_def by (rule arg_cong[where f = "upto start_timestep"]) simp
    moreover have "py_range (start_timestep + seq_len) (end_timestep + 2) =
          [start_timestep + seq_len..end_timestep - seq_len + 1 + seq_len]"
      unfolding py_range_def by (rule arg_cong[where f = "upto (start_timestep + seq_len)"]) simp
    ultimately show ?thesis by (simp only: zip_upto_shift)
  qed
  have "gen_sequence df seq_len seq_cols start_timestep (Some end_timestep) =
        Inr (map (\<lambda>i. py_slice data_array i (i + seq_len))
               [start_timestep..end_timestep - seq_len + 1])"
    by (simp add: gen_sequence_def assms(1) z o_def)
  moreover have "map (\<lambda>i. py_slice data_array i (i + seq_len))
                   [start_timestep..end_timestep - seq_len + 1] =
                 map (\<lambda>i. take (nat seq_len) (drop (nat i) data_array))
                   [start_timestep..end_timestep - seq_len + 1]"
    using win by (intro map_cong) auto
  ultimately show ?thesis using win by simp
qed

theorem gen_sequence_windows_witness:
  "gen_sequence (map (\<lambda>i. [(''store'', 1), (''brand'', 1), (''x'', i)]) [0..9]) 3 [''x''] 0 (Some 9) =
     Inr [[[0], [1], [2]], [[1], [2], [3]], [[2], [3], [4]], [[3], [4], [5]],
          [[4], [5], [6]], [[5], [6], [7]], [[6], [7], [8]], [[7], [8], [9::int]]]"
proof -
  let ?df = "map (\<lambda>i. [(''store'', 1), (''brand'', 1), (''x'', i)]) [0..9::int]"
  have s: "select_values ?df [''x''] = Inr (map (\<lambda>i. [i]) [0..9])"
    by code_simp
  have l: "(9::int) < int (length ?df)" by code_simp
  have "gen_sequence ?df 3 [''x''] 0 (Some 9) =
        Inr (map (\<lambda>i. take (nat 3) (drop (nat i) (map (\<lambda>i. [i]) [0..9]))) [0..9 - 3 + 1])"
    using gen_sequence_windows[OF s _ _ l, of 3 0] by simp
  also have "\<dots> = Inr [[[0], [1], [2]], [[1], [2], [3]], [[2], [3], [4]], [[3], [4], [5]],
          [[4], [5], [6]], [[5], [6], [7]], [[6], [7], [8]], [[7], [8], [9::int]]]"
    by code_simp
  finally show ?thesis .
qed

text \<open>
  Claim C3 at the default \<^verbatim>\<open>end_timestep=None\<close>. The docstring calls \<^verbatim>\<open>end_timestep\<close>
  the last time step that can be used, but the default is \<^verbatim>\<open>df.shape[0]\<close>, one past
  the last row. On ten rows with \<open>seq_len = 3\<close> the generator yields nine windows, the
  last of them with two rows only, and \<open>gen_sequence_array\<close> on two such entities
  cannot build an array from windows of different shapes.
\<close>

theorem gen_sequence_default_end:
  "map_sum id (map length)
     (gen_sequence (map (\<lambda>i. [(''store'', 1::int), (''brand'', 1), (''x'', i)]) [0..9]) 3 [''x''] 0 None) =
     Inr [3, 3, 3, 3, 3, 3, 3, 3, 2] \<and>
   gen_sequence_array
     (map (\<lambda>i. [(''store'', 1::int), (''brand'', 1), (''x'', i)]) [0..9] @
      map (\<lambda>i. [(''store'', 2), (''brand'', 1), (''x'', i)]) [0..9])
     3 [''x''] ''store'' ''brand'' 0 None = Inl ValueError"
  by code_simp

text \<open>
  With the last row given as \<open>end_timestep\<close>, two entities of ten rows and
  \<open>seq_len = 3\<close> give sixteen sequences of three rows.
\<close>

theorem gen_sequence_array_sixteen:
  "map_sum id (map length) (gen_sequence_array
     (map (\<lambda>i. [(''store'', 1::int), (''brand'', 1), (''x'', i)]) [0..9] @
      map (\<lambda>i. [(''store'', 2), (''brand'', 1), (''x'', i)]) [0..9])
     3 [''x''] ''store'' ''brand'' 0 (Some 9)) = Inr (replicate 16 3)"
  by code_simp

lemma unique_set_distinct: "set (unique xs) = set xs" "distinct (unique xs)"
  by (simp_all add: unique_def)

lemma collect_map_nth:
  assumes "collect (map f xs) = Inr ys"
  shows "length ys = length xs" and "i < length xs \<Longrightarrow> f (xs ! i) = Inr (ys ! i)"
proof -
  from assms have m: "map f xs = map Inr ys" by (simp add: collect_Inr_iff)
  from arg_cong[OF m, of length] show len: "length ys = length xs" by simp
  assume i: "i < length xs"
  from arg_cong[OF m, of "\<lambda>zs. zs ! i"] i len show "f (xs ! i) = Inr (ys ! i)" by simp
qed

lemma grain_keys_columns:
  assumes "grain_keys df g1 g2 = Inr keys"
  shows "column_values df g1 = Inr (map fst keys)" and "column_values df g2 = Inr (map snd keys)"
proof -
  let ?f = "\<lambda>row. case cell row g1 of Inl e \<Rightarrow> Inl e
            | Inr a \<Rightarrow> (case cell row g2 of Inl e \<Rightarrow> Inl e | Inr b \<Rightarrow> Inr (a, b))"
  from assms have c: "collect (map ?f df) = Inr keys" by (simp add: grain_keys_def)
  note len = collect_map_nth(1)[OF c]
  have row: "cell (df ! i) g1 = Inr (fst (keys ! i)) \<and> cell (df ! i) g2 = Inr (snd (keys ! i))"
    if "i < length df" for i
  proof -
    from collect_map_nth(2)[OF c that] have "?f (df ! i) = Inr (keys ! i)" .
    then show ?thesis
      by (cases "cell (df ! i) g1"; cases "cell (df ! i) g2"; cases "keys ! i") auto
  qed
  have "map (\<lambda>row. cell row g1) df = map Inr (map fst keys)"
    using row len by (intro nth_equalityI) simp_all
  then show "column_values df g1 = Inr (map fst keys)"
    by (simp only: column_values_def collect_Inr_iff)
  have "map (\<lambda>row. cell row g2) df = map Inr (map snd keys)"
    using row len by (intro nth_equalityI) simp_all
  then show "column_values df g2 = Inr (map snd keys)"
    by (simp only: column_values_def collect_Inr_iff)
qed

lemma sorted_distinct_product:
  fixes xs :: "'a::linorder list" and ys :: "'a list"
  assumes "sorted xs" "distinct xs" "sorted ys" "distinct ys"
  shows "sorted (List.product xs ys) \<and> distinct (List.product xs ys)"
  using assms(1,2)
proof (induction xs)
  case Nil
  show ?case by simp
next
  case (Cons x xs)
  have s1: "sorted (map (Pair x) ys)"
    using assms(3) by (induction ys) (auto simp: less_eq_prod_def)
  have d1: "distinct (map (Pair x) ys)"
    using assms(4) by (simp add: distinct_map inj_on_def)
  have lt: "\<forall>a \<in> set (map (Pair x) ys). \<forall>b \<in> set (List.product xs ys). a \<le> b \<and> a \<noteq> b"
  proof (intro ballI)
    fix a b assume "a \<in> set (map (Pair x) ys)" "b \<in> set (List.product xs ys)"
    then have "fst a = x" "fst b \<in> set xs" by auto
    moreover from this Cons.prems have "x \<le> fst b" "x \<noteq> fst b" by auto
    ultimately show "a \<le> b \<and> a \<noteq> b" by (auto simp: less_eq_prod_def)
  qed
  from Cons have IH: "sorted (List.product xs ys)" "distinct (List.product xs ys)" by auto
  show ?case using s1 d1 lt IH by (auto simp: sorted_append)
qed

lemma sorted_wrt_remdups: "sorted_wrt P xs \<Longrightarrow> sorted_wrt P (remdups xs)"
  by (induction xs) auto

lemma sorted_unique: "sorted xs \<Longrightarrow> sorted (unique xs)"
proof -
  assume "sorted xs"
  then have "sorted_wrt (\<lambda>x y. y \<le> x) (rev xs)" by (simp add: sorted_wrt_rev)
  then have "sorted_wrt (\<lambda>x y. y \<le> x) (remdups (rev xs))" by (rule sorted_wrt_remdups)
  then show "sorted (unique xs)" by (simp add: unique_def sorted_wrt_rev)
qed

lemma split_min_key:
  assumes "sorted (map f xs)" "\<forall>x \<in> set xs. k \<le> f x"
  shows "xs = filter (\<lambda>x. f x = k) xs @ filter (\<lambda>x. f x \<noteq> k) xs"
  using assms
proof (induction xs)
  case Nil
  show ?case by simp
next
  case (Cons x xs)
  show ?case
  proof (cases "f x = k")
    case True
    with Cons show ?thesis by simp
  next
    case False
    with Cons.prems have "\<forall>y \<in> set xs. f y \<noteq> k" by fastforce
    then have "filter (\<lambda>x. f x = k) xs = []" "filter (\<lambda>x. f x \<noteq> k) xs = xs"
      by (simp_all add: filter_empty_conv filter_id_conv)
    with False show ?thesis by simp
  qed
qed

lemma concat_groups_sorted:
  fixes f :: "'r \<Rightarrow> 'k::linorder"
  assumes "sorted (map f xs)" "sorted ks" "distinct ks" "f ` set xs \<subseteq> set ks"
  shows "concat (map (\<lambda>k. filter (\<lambda>x. f x = k) xs) ks) = xs"
  using assms
proof (induction ks arbitrary: xs)
  case Nil
  then show ?case by simp
next
  case (Cons k ks)
  let ?A = "filter (\<lambda>x. f x = k) xs" and ?B = "filter (\<lambda>x. f x \<noteq> k) xs"
  have "\<forall>x \<in> set xs. k \<le> f x" using Cons.prems(2,4) by auto
  from split_min_key[OF Cons.prems(1) this] have xs: "xs = ?A @ ?B" .
  have sB: "sorted (map f ?B)" using Cons.prems(1) by (simp add: sorted_filter)
  have kB: "f ` set ?B \<subseteq> set ks" using Cons.prems(4) by auto
  have eq: "filter (\<lambda>x. f x = k') xs = filter (\<lambda>x. f x = k') ?B" if "k' \<in> set ks" for k'
  proof -
    from that Cons.prems(3) have "k' \<noteq> k" by auto
    then show ?thesis by (induction xs) auto
  qed
  have m: "map (\<lambda>k'. filter (\<lambda>x. f x = k') xs) ks = map (\<lambda>k'. filter (\<lambda>x. f x = k') ?B) ks"
    by (rule map_cong[OF refl]) (rule eq)
  have ih: "concat (map (\<lambda>k'. filter (\<lambda>x. f x = k') ?B) ks) = ?B"
    using Cons.IH[OF sB _ _ kB] Cons.prems(2,3) by simp
  have "concat (map (\<lambda>k. filter (\<lambda>x. f x = k) xs) (k # ks)) =
        ?A @ concat (map (\<lambda>k'. filter (\<lambda>x. f x = k') xs) ks)"
    by simp
  also have "\<dots> = ?A @ ?B" by (simp only: m ih)
  finally show ?case using xs by simp
qed

lemma grain_keys_rows:
  assumes "grain_keys df g1 g2 = Inr keys"
  shows "length keys = length df"
    and "i < length df \<Longrightarrow> cell (df ! i) g1 = Inr (fst (keys ! i)) \<and> cell (df ! i) g2 = Inr (snd (keys ! i))"
proof -
  let ?f = "\<lambda>row. case cell row g1 of Inl e \<Rightarrow> Inl e
            | Inr a \<Rightarrow> (case cell row g2 of Inl e \<Rightarrow> Inl e | Inr b \<Rightarrow> Inr (a, b))"
  from assms have c: "collect (map ?f df) = Inr keys" by (simp add: grain_keys_def)
  show "length keys = length df" by (rule collect_map_nth(1)[OF c])
  assume "i < length df"
  from collect_map_nth(2)[OF c this] have "?f (df ! i) = Inr (keys ! i)" .
  then show "cell (df ! i) g1 = Inr (fst (keys ! i)) \<and> cell (df ! i) g2 = Inr (snd (keys ! i))"
    by (cases "cell (df ! i) g1"; cases "cell (df ! i) g2"; cases "keys ! i") auto
qed

lemma concat_map_filter_empty:
  "(\<forall>x \<in> set xs. \<not> Q x \<longrightarrow> g x = []) \<Longrightarrow> concat (map g (filter Q xs)) = concat (map g xs)"
  by (induction xs) auto

lemma py_slice_prefix: "py_slice xs 0 T = take (length (py_slice xs 0 T)) xs"
  by (simp add: py_slice_def Let_def min_def max_def)

lemma py_slice_whole: "length (py_slice xs 0 T) = length xs \<Longrightarrow> py_slice xs 0 T = xs"
  using py_slice_prefix[of xs T] by simp

lemma sorted_map_fst: "sorted (keys :: ('a::linorder \<times> 'a) list) \<Longrightarrow> sorted (map fst keys)"
  by (induction keys) (auto simp: less_eq_prod_def)

text \<open>
  Claim C7, as the code has it. \<open>gen_sequence_array\<close> iterates the Cartesian product of
  the two grain columns' distinct values in the order of their first appearance, not in
  sorted order. On a frame whose rows are sorted by the two grain keys and whose
  distinct values of the second grain first appear in ascending order, that product is
  in sorted order and \<open>static_feature_array\<close> returns the entities' rows (the first
  \<open>total_timesteps\<close> of each) in the same order, so that its rows align with the entity
  blocks of the sequence array.
\<close>

theorem static_rows_align:
  fixes df_all :: "('a::linorder) table"
  assumes "grain_keys df_all grain1_name grain2_name = Inr keys"
    and "sorted keys"
    and "sorted (unique (map snd keys))"
  defines "grains \<equiv> List.product (unique (map fst keys)) (unique (map snd keys))"
  shows "grain_product df_all grain1_name grain2_name = Inr grains \<and>
         sorted grains \<and>
         static_feature_array df_all total_timesteps seq_cols grain1_name grain2_name =
           select_values
             (concat (map (\<lambda>(grain1, grain2).
                            py_slice (filter (\<lambda>row. cell row grain1_name = Inr grain1 \<and>
                                                     cell row grain2_name = Inr grain2) df_all)
                              0 total_timesteps)
                        grains))
             seq_cols"
proof -
  let ?kf = "\<lambda>row. (projr (cell row grain1_name), projr (cell row grain2_name))"
  let ?chunk = "\<lambda>(a, b). filter (\<lambda>row. cell row grain1_name = Inr a \<and> cell row grain2_name = Inr b) df_all"
  let ?slice = "\<lambda>(a, b). py_slice (filter (\<lambda>row. cell row grain1_name = Inr a \<and>
                                            cell row grain2_name = Inr b) df_all) 0 total_timesteps"
  let ?G = "sort (remdups keys)"
  note R = grain_keys_rows[OF assms(1)]
  have keys: "map ?kf df_all = keys"
    using R by (intro nth_equalityI) simp_all
  have row: "(cell row grain1_name = Inr a \<and> cell row grain2_name = Inr b) \<longleftrightarrow> ?kf row = (a, b)"
    if "row \<in> set df_all" for row a b
  proof -
    from that obtain i where "i < length df_all" "df_all ! i = row" by (auto simp: in_set_conv_nth)
    with R(2)[of i] show ?thesis by auto
  qed
  have chunk': "filter (\<lambda>row. cell row grain1_name = Inr a \<and> cell row grain2_name = Inr b) df_all =
                filter (\<lambda>row. ?kf row = (a, b)) df_all" for a b
    by (rule filter_cong[OF refl]) (rule row)
  have chunk: "?chunk k = filter (\<lambda>row. ?kf row = k) df_all" for k
    by (cases k) (simp only: case_prod_conv chunk')
  have gp: "grain_product df_all grain1_name grain2_name = Inr grains"
    using grain_keys_columns[OF assms(1)] by (simp add: grain_product_def grains_def)
  have sp: "sorted grains" "distinct grains"
    using sorted_distinct_product[OF sorted_unique[OF sorted_map_fst[OF assms(2)]]
        unique_set_distinct(2) assms(3) unique_set_distinct(2)]
    by (simp_all add: grains_def)
  have sub: "set keys \<subseteq> set grains"
    by (force simp: grains_def unique_set_distinct(1))
  have "sorted (filter (\<lambda>k. k \<in> set keys) grains)" "distinct (filter (\<lambda>k. k \<in> set keys) grains)"
    using sp by (simp_all add: sorted_filter[where f = "\<lambda>x. x", simplified])
  moreover have "set (filter (\<lambda>k. k \<in> set keys) grains) = set ?G" using sub by auto
  ultimately have fG: "filter (\<lambda>k. k \<in> set keys) grains = ?G"
    by (intro sorted_distinct_set_unique) simp_all
  have empty: "?slice k = []" if "k \<notin> set keys" for k
  proof -
    from that keys have "\<forall>row \<in> set df_all. ?kf row \<noteq> k" by (metis (no_types, lifting) image_eqI list.set_map)
    then have "filter (\<lambda>row. ?kf row = k) df_all = []" by (simp add: filter_empty_conv)
    with chunk[of k] show ?thesis by (cases k) (simp add: py_slice_def)
  qed
  have rhs: "concat (map ?slice grains) = concat (map ?slice ?G)"
    using concat_map_filter_empty[of grains "\<lambda>k. k \<in> set keys" ?slice] empty
    by (simp add: fG)
  have gg: "groupby_grains df_all grain1_name grain2_name = Inr ?G"
    using assms(1) by (simp add: groupby_grains_def)
  have whole: "concat (map ?slice ?G) = df_all"
    if w: "\<forall>x \<in> set (map ?chunk ?G). length (py_slice x 0 total_timesteps) = length x"
  proof -
    have sl: "?slice k = ?chunk k" if "k \<in> set ?G" for k
    proof -
      from w that have "length (py_slice (?chunk k) 0 total_timesteps) = length (?chunk k)" by simp
      from py_slice_whole[OF this] show ?thesis by (cases k) simp
    qed
    have e: "map ?slice ?G = map (\<lambda>k. filter (\<lambda>row. ?kf row = k) df_all) ?G"
    proof (rule map_cong[OF refl])
      fix k assume "k \<in> set ?G"
      from sl[OF this] chunk[of k] show "?slice k = filter (\<lambda>row. ?kf row = k) df_all"
        by (simp only:)
    qed
    have c: "concat (map (\<lambda>k. filter (\<lambda>row. ?kf row = k) df_all) ?G) = df_all"
      using assms(2) keys by (intro concat_groups_sorted) auto
    show ?thesis by (simp only: e c)
  qed
  have unfold: "static_feature_array df_all total_timesteps seq_cols grain1_name grain2_name =
        select_values
          (if \<forall>x \<in> set (map ?chunk ?G). length (py_slice x 0 total_timesteps) = length x
           then df_all
           else concat (map (\<lambda>x. py_slice x 0 total_timesteps) (map ?chunk ?G)))
          seq_cols"
    by (simp add: static_feature_array_def gg Let_def del: map_map)
  have res: "map (\<lambda>x. py_slice x 0 total_timesteps) (map ?chunk ?G) = map ?slice ?G"
    by (simp add: o_def split_def)
  have st: "static_feature_array df_all total_timesteps seq_cols grain1_name grain2_name =
        select_values (concat (map ?slice ?G)) seq_cols"
  proof (cases "\<forall>x \<in> set (map ?chunk ?G). length (py_slice x 0 total_timesteps) = length x")
    case True
    show ?thesis unfolding unfold if_P[OF True] whole[OF True] ..
  next
    case False
    show ?thesis unfolding unfold if_not_P[OF False] res ..
  qed
  from gp sp(1) st rhs show ?thesis by simp
qed

theorem static_rows_align_witness:
  "grain_product [[(''store'', 1::int), (''brand'', 1), (''x'', 10)], [(''store'', 1), (''brand'', 2), (''x'', 11)],
                  [(''store'', 2), (''brand'', 1), (''x'', 20)], [(''store'', 2), (''brand'', 2), (''x'', 21)]]
     ''store'' ''brand'' = Inr [(1, 1), (1, 2), (2, 1), (2, 2)] \<and>
   static_feature_array
     [[(''store'', 1::int), (''brand'', 1), (''x'', 10)], [(''store'', 1), (''brand'', 2), (''x'', 11)],
      [(''store'', 2), (''brand'', 1), (''x'', 20)], [(''store'', 2), (''brand'', 2), (''x'', 21)]]
     1 [''x''] ''store'' ''brand'' = Inr [[10], [11], [20], [21]]"
proof -
  let ?df = "[[(''store'', 1::int), (''brand'', 1), (''x'', 10)], [(''store'', 1), (''brand'', 2), (''x'', 11)],
              [(''store'', 2), (''brand'', 1), (''x'', 20)], [(''store'', 2), (''brand'', 2), (''x'', 21)]]"
  let ?keys = "[(1::int, 1::int), (1, 2), (2, 1), (2, 2)]"
  have k: "grain_keys ?df ''store'' ''brand'' = Inr ?keys" by code_simp
  have s1: "sorted ?keys" by (simp add: less_eq_prod_def)
  have s2: "sorted (unique (map snd ?keys))" by code_simp
  have p: "List.product (unique (map fst ?keys)) (unique (map snd ?keys)) = ?keys" by code_simp
  note t = static_rows_align[OF k s1 s2, of 1 "[''x'']", unfolded p]
  have "select_values
          (concat (map (\<lambda>(grain1, grain2).
                          py_slice (filter (\<lambda>row. cell row ''store'' = Inr grain1 \<and>
                                                   cell row ''brand'' = Inr grain2) ?df) 0 1) ?keys))
          [''x''] = Inr [[10], [11], [20], [21]]"
    by code_simp
  with t show ?thesis by simp
qed

text \<open>
  On a frame whose first rows belong to store 2 and whose last rows belong to store 1,
  \<open>gen_sequence_array\<close> visits store 2 first, which is not the sorted order, and
  \<open>static_feature_array\<close> returns the row of store 1 first.
\<close>

theorem static_rows_counterexample:
  "grain_product [[(''store'', 2::int), (''brand'', 1)], [(''store'', 2), (''brand'', 1)],
                  [(''store'', 1), (''brand'', 1)], [(''store'', 1), (''brand'', 1)]]
     ''store'' ''brand'' = Inr [(2, 1), (1, 1)] \<and>
   List.product (sort (unique [2, 2, 1, 1 :: int])) (sort (unique [1, 1, 1, 1 :: int])) = [(1, 1), (2, 1)] \<and>
   static_feature_array [[(''store'', 2::int), (''brand'', 1)], [(''store'', 2), (''brand'', 1)],
                         [(''store'', 1), (''brand'', 1)], [(''store'', 1), (''brand'', 1)]]
     1 [''store''] ''store'' ''brand'' = Inr [[1], [2]]"
proof -
  let ?df = "[[(''store'', 2::int), (''brand'', 1)], [(''store'', 2), (''brand'', 1)],
              [(''store'', 1), (''brand'', 1)], [(''store'', 1), (''brand'', 1)]]"
  have a: "grain_product ?df ''store'' ''brand'' = Inr [(2, 1), (1, 1)]" by code_simp
  have b: "List.product (sort (unique [2, 2, 1, 1 :: int])) (sort (unique [1, 1, 1, 1 :: int])) =
             [(1, 1), (2, 1)]"
    by code_simp
  have g: "groupby_grains ?df ''store'' ''brand'' = Inr [(1, 1), (2, 1)]"
    by (simp add: groupby_grains_def grain_keys_def cell_def less_eq_prod_def)
  have c: "static_feature_array ?df 1 [''store''] ''store'' ''brand'' = Inr [[1], [2]]"
    unfolding static_feature_array_def g by code_simp
  from a b c show ?thesis by blast
qed

section \<open>Properties of the building blocks\<close>

lemma digit_char_inj: "a < 10 \<Longrightarrow> b < 10 \<Longrightarrow> digit_char a = digit_char b \<Longrightarrow> a = b"
proof -
  assume "a < 10" "b < 10" and e: "digit_char a = digit_char b"
  then have "a \<in> {0,1,2,3,4,5,6,7,8,9}" "b \<in> {0,1,2,3,4,5,6,7,8,9}" by auto
  with e show ?thesis unfolding digit_char_def by (elim insertE emptyE) simp_all
qed

lemma digit_char_not_minus: "d < 10 \<Longrightarrow> digit_char d \<noteq> CHR ''-''"
proof -
  assume "d < 10"
  then have "d \<in> {0,1,2,3,4,5,6,7,8,9}" by auto
  then show ?thesis unfolding digit_char_def by (elim insertE emptyE) simp_all
qed

lemma string_of_nat_nonempty: "string_of_nat n \<noteq> []"
  by (subst string_of_nat.simps) simp

lemma string_of_nat_last: "last (string_of_nat n) = digit_char (n mod 10)"
  by (subst string_of_nat.simps) simp

lemma string_of_nat_butlast:
  "butlast (string_of_nat n) = (if n < 10 then [] else string_of_nat (n div 10))"
  by (subst string_of_nat.simps) simp

lemma string_of_nat_inj: "string_of_nat n = string_of_nat m \<Longrightarrow> n = m"
proof (induction n arbitrary: m rule: string_of_nat.induct)
  case (1 n)
  from 1(2) have l: "digit_char (n mod 10) = digit_char (m mod 10)"
    using string_of_nat_last by metis
  then have md: "n mod 10 = m mod 10" by (intro digit_char_inj) simp_all
  from 1(2) have b: "butlast (string_of_nat n) = butlast (string_of_nat m)" by simp
  show ?case
  proof (cases "n < 10")
    case True
    with b have "m < 10" using string_of_nat_nonempty[of "m div 10"]
      by (auto simp: string_of_nat_butlast split: if_splits)
    with True md show ?thesis by simp
  next
    case False
    with b have m10: "\<not> m < 10" using string_of_nat_nonempty[of "n div 10"]
      by (auto simp: string_of_nat_butlast split: if_splits)
    with b False have "string_of_nat (n div 10) = string_of_nat (m div 10)"
      by (simp add: string_of_nat_butlast)
    with 1(1)[OF False] have "n div 10 = m div 10" by blast
    with md show ?thesis by (metis div_mult_mod_eq)
  qed
qed

lemma string_of_nat_hd: "hd (string_of_nat n) \<noteq> CHR ''-''"
proof (induction n rule: string_of_nat.induct)
  case (1 n)
  show ?case
  proof (cases "n < 10")
    case True
    then show ?thesis by (subst string_of_nat.simps) (simp add: digit_char_not_minus)
  next
    case False
    with 1 string_of_nat_nonempty[of "n div 10"] show ?thesis
      by (subst string_of_nat.simps) simp
  qed
qed

lemma str_int_inj: "str_int a = str_int b \<Longrightarrow> a = b"
proof -
  assume e: "str_int a = str_int b"
  have neg: "string_of_nat n \<noteq> CHR ''-'' # s" for n s
    using string_of_nat_hd[of n] by (metis list.sel(1))
  show ?thesis
  proof (cases "a < 0"; cases "b < 0")
    assume "a < 0" "b < 0"
    with e have "nat (- a) = nat (- b)" by (auto simp: str_int_def dest: string_of_nat_inj)
    with \<open>a < 0\<close> \<open>b < 0\<close> show ?thesis by simp
  next
    assume "a < 0" "\<not> b < 0"
    with e neg[of "nat b" "string_of_nat (nat (- a))"] show ?thesis by (simp add: str_int_def)
  next
    assume "\<not> a < 0" "b < 0"
    with e neg[of "nat a" "string_of_nat (nat (- b))"] show ?thesis by (simp add: str_int_def)
  next
    assume "\<not> a < 0" "\<not> b < 0"
    with e have "nat a = nat b" by (auto simp: str_int_def dest: string_of_nat_inj)
    with \<open>\<not> a < 0\<close> \<open>\<not> b < 0\<close> show ?thesis by simp
  qed
qed

lemma py_min_Min: "xs \<noteq> [] \<Longrightarrow> py_min xs = Min (set xs)"
  using Min.set_eq_fold[of "hd xs" "tl xs"] by (cases xs) (simp_all add: py_min_def)

lemma py_max_Max: "xs \<noteq> [] \<Longrightarrow> py_max xs = Max (set xs)"
  using Max.set_eq_fold[of "hd xs" "tl xs"] by (cases xs) (simp_all add: py_max_def)

lemma get_set_col [simp]:
  "get_col (set_col df n c) n' = (if n' = n then Inr c else get_col df n')"
  by (simp add: get_col_def set_col_def update_conv')

lemma index_set_col [simp]: "index (set_col df n c) = index df"
  by (simp add: set_col_def)

lemma fill_mask_filter:
  "fill_mask (map P xs) (map f (filter P xs)) = map (\<lambda>x. if P x then f x else None) xs"
  by (induction xs) simp_all

lemma length_filter_mask: "length (filter id (map P xs)) = length (filter P xs)"
  by (induction xs) simp_all

lemma loc_row_distinct:
  assumes "distinct idx" "length vals = length idx" "l \<in> set idx"
  shows "map snd (filter (\<lambda>r. fst r = l) (zip idx vals)) =
         [value_at idx vals l]"
  using assms unfolding value_at_def
proof (induction idx vals rule: list_induct2')
  case (4 x xs y ys)
  show ?case
  proof (cases "x = l")
    case True
    with 4(2) have "\<forall>r \<in> set (zip xs ys). fst r \<noteq> l"
      by (auto dest: set_zip_leftD)
    then have "filter (\<lambda>r. fst r = l) (zip xs ys) = []" by (simp add: filter_empty_conv)
    with True show ?thesis by simp
  next
    case False
    with 4 show ?thesis by simp
  qed
qed simp_all

lemma loc_values_distinct:
  assumes "distinct idx" "length vals = length idx"
  shows "loc_values idx vals labels =
         (if \<exists>l \<in> set labels. l \<notin> set idx then Inl KeyError
          else Inr (reindex idx vals labels))"
proof (cases "\<exists>l \<in> set labels. l \<notin> set idx")
  case True
  then show ?thesis by (simp add: loc_values_def)
next
  case False
  then have "\<forall>l \<in> set labels. l \<in> set idx" by blast
  then have "concat (map (\<lambda>l. map snd (filter (\<lambda>r. fst r = l) (zip idx vals))) labels) =
             reindex idx vals labels"
    unfolding reindex_def
    by (induction labels) (simp_all add: loc_row_distinct[OF assms])
  with False show ?thesis by (simp add: loc_values_def)
qed

section \<open>Properties of the same-period lags\<close>

lemma lag_column_cong:
  "index df = index df' \<Longrightarrow> get_col df ''value'' = get_col df' ''value'' \<Longrightarrow>
   lag_column df mn delta = lag_column df' mn delta"
proof -
  assume a: "index df = index df'" and b: "get_col df ''value'' = get_col df' ''value''"
  show ?thesis unfolding lag_column_def a b ..
qed

lemma lag_column_distinct:
  assumes "distinct (index df)" "get_col df ''value'' = Inr vals" "length vals = length (index df)"
  shows "lag_column df mn delta =
         (if \<exists>t \<in> set (index df). mn \<le> t - delta \<and> t - delta \<notin> set (index df) then Inl KeyError
          else Inr (map (\<lambda>t. if mn \<le> t - delta then value_at (index df) vals (t - delta) else None)
                      (index df)))"
proof -
  let ?idx = "index df"
  let ?P = "\<lambda>t. mn \<le> t - delta"
  have labels: "filter (\<lambda>t. mn \<le> t) (map (\<lambda>t. t - delta) ?idx) = map (\<lambda>t. t - delta) (filter ?P ?idx)"
    by (simp add: filter_map o_def)
  have mask: "map (\<lambda>t. mn \<le> t) (map (\<lambda>t. t - delta) ?idx) = map ?P ?idx"
    by simp
  have ex: "(\<exists>l \<in> set (map (\<lambda>t. t - delta) (filter ?P ?idx)). l \<notin> set ?idx) \<longleftrightarrow>
            (\<exists>t \<in> set ?idx. ?P t \<and> t - delta \<notin> set ?idx)"
    by auto
  have got: "reindex ?idx vals (map (\<lambda>t. t - delta) (filter ?P ?idx)) =
             map (\<lambda>t. value_at ?idx vals (t - delta)) (filter ?P ?idx)"
    by (simp add: reindex_def o_def)
  show ?thesis
    unfolding lag_column_def Let_def assms(2) labels mask
    by (simp only: loc_values_distinct[OF assms(1,3)] ex got sum.case length_map
          length_filter_mask fill_mask_filter split: if_splits) simp
qed

lemma lag_step_Inl: "lag_step prefix unit mn mx (Inl e) w = Inl e"
  by (simp add: lag_step_def)

lemma lag_step_Inr:
  "lag_step prefix unit mn mx (Inr (df, cols)) w =
     (if mn \<le> mx - w * unit then
        (case lag_column df mn (w * unit) of
           Inl e \<Rightarrow> Inl e
         | Inr c \<Rightarrow> Inr (set_col df (prefix @ str_int w) c, cols @ [prefix @ str_int w]))
      else Inr (df, cols))"
  by (simp add: lag_step_def Let_def)

lemma lag_loop:
  assumes "foldl (lag_step prefix unit mn mx) (Inr (df0, cols0)) ws = Inr (df, cols)"
    and "\<forall>w. prefix @ str_int w \<noteq> ''value''"
  shows "index df = index df0 \<and>
         get_col df ''value'' = get_col df0 ''value'' \<and>
         cols = cols0 @ map (\<lambda>w. prefix @ str_int w) (filter (\<lambda>w. mn \<le> mx - w * unit) ws) \<and>
         (\<forall>w \<in> set ws. mn \<le> mx - w * unit \<longrightarrow>
             (\<exists>c. lag_column df0 mn (w * unit) = Inr c \<and> get_col df (prefix @ str_int w) = Inr c)) \<and>
         (\<forall>n. n \<notin> (\<lambda>w. prefix @ str_int w) ` {w \<in> set ws. mn \<le> mx - w * unit} \<longrightarrow>
             get_col df n = get_col df0 n)"
  using assms(1)
proof (induction ws arbitrary: df cols rule: rev_induct)
  case Nil
  then show ?case by simp
next
  case (snoc w ws)
  let ?step = "lag_step prefix unit mn mx"
  obtain df1 cols1 where mid: "foldl ?step (Inr (df0, cols0)) ws = Inr (df1, cols1)"
  proof (cases "foldl ?step (Inr (df0, cols0)) ws")
    case (Inl e)
    with snoc.prems show ?thesis by (simp add: lag_step_Inl)
  next
    case (Inr p)
    with that show ?thesis by (cases p) simp
  qed
  note IH = snoc.IH[OF mid]
  have last: "?step (Inr (df1, cols1)) w = Inr (df, cols)"
    using snoc.prems mid by simp
  have cong: "lag_column df1 mn d = lag_column df0 mn d" for d
    using IH by (intro lag_column_cong) simp_all
  show ?case
  proof (cases "mn \<le> mx - w * unit")
    case False
    with last have "df = df1" "cols = cols1" by (simp_all add: lag_step_Inr)
    with IH False show ?thesis by auto
  next
    case True
    with last obtain c where c: "lag_column df1 mn (w * unit) = Inr c"
      and df: "df = set_col df1 (prefix @ str_int w) c" and cols: "cols = cols1 @ [prefix @ str_int w]"
      by (auto simp: lag_step_Inr split: sum.splits)
    have c0: "lag_column df0 mn (w * unit) = Inr c" using c cong by simp
    have a: "index df = index df0" using IH df by simp
    have b: "get_col df ''value'' = get_col df0 ''value''"
      using IH df assms(2) by (simp add: eq_commute[of "''value''"])
    have d: "cols = cols0 @ map (\<lambda>w. prefix @ str_int w) (filter (\<lambda>w. mn \<le> mx - w * unit) (ws @ [w]))"
      using IH cols True by simp
    have e: "\<exists>c'. lag_column df0 mn (w' * unit) = Inr c' \<and> get_col df (prefix @ str_int w') = Inr c'"
      if "w' \<in> set (ws @ [w])" "mn \<le> mx - w' * unit" for w'
    proof (cases "w' = w")
      case True
      then show ?thesis using c0 df by simp
    next
      case False
      with that have "w' \<in> set ws" by simp
      with IH that(2) obtain c' where "lag_column df0 mn (w' * unit) = Inr c'"
        "get_col df1 (prefix @ str_int w') = Inr c'" by blast
      with False show ?thesis using df str_int_inj[of w' w] by auto
    qed
    have f: "get_col df n = get_col df0 n"
      if "n \<notin> (\<lambda>w. prefix @ str_int w) ` {w' \<in> set (ws @ [w]). mn \<le> mx - w' * unit}" for n
    proof -
      from that True have "n \<noteq> prefix @ str_int w" by auto
      moreover from that have "n \<notin> (\<lambda>w. prefix @ str_int w) ` {w' \<in> set ws. mn \<le> mx - w' * unit}"
        by auto
      ultimately show ?thesis using IH df by simp
    qed
    from a b d e f show ?thesis by blast
  qed
qed

lemma lag_loop_error:
  assumes "foldl (lag_step prefix unit mn mx) (Inr (df0, cols0)) ws = Inl e"
    and "\<forall>w. prefix @ str_int w \<noteq> ''value''"
  shows "\<exists>w \<in> set ws. mn \<le> mx - w * unit \<and> lag_column df0 mn (w * unit) = Inl e"
  using assms(1)
proof (induction ws rule: rev_induct)
  case Nil
  then show ?case by simp
next
  case (snoc w ws)
  let ?step = "lag_step prefix unit mn mx"
  show ?case
  proof (cases "foldl ?step (Inr (df0, cols0)) ws")
    case (Inl e')
    with snoc.prems have "e' = e" by (simp add: lag_step_Inl)
    with snoc.IH Inl show ?thesis by auto
  next
    case (Inr p)
    obtain df1 cols1 where p: "p = (df1, cols1)" by (cases p)
    have cong: "lag_column df1 mn d = lag_column df0 mn d" for d
      using lag_loop[OF Inr[unfolded p] assms(2)] by (intro lag_column_cong) simp_all
    from snoc.prems Inr p cong show ?thesis
      by (auto simp: lag_step_Inr split: if_splits sum.splits)
  qed
qed

lemma py_max_ge: "t \<in> set xs \<Longrightarrow> t \<le> py_max xs"
  by (cases "xs = []") (simp_all add: py_max_Max)

lemma py_max_in: "xs \<noteq> [] \<Longrightarrow> py_max xs \<in> set xs"
  using Max_in[of "set xs"] by (simp add: py_max_Max)

lemma lag_columns_unfold:
  assumes "datetime_col \<noteq> []" "length value_col = length datetime_col"
  shows "lag_columns prefix unit lag_all datetime_col value_col =
         foldl (lag_step prefix unit (py_min datetime_col) (py_max datetime_col))
           (Inr (\<lparr>index = datetime_col, columns = [(''value'', value_col)]\<rparr>, [])) lag_all"
  using assms by (simp add: lag_columns_def make_frame_def)

lemma lag_column_frame0:
  assumes "distinct idx" "length vals = length idx"
  shows "lag_column \<lparr>index = idx, columns = [(''value'', vals)]\<rparr> (py_min idx) (w * unit) =
         (if \<exists>t \<in> set idx. py_min idx \<le> t - w * unit \<and> t - w * unit \<notin> set idx then Inl KeyError
          else Inr (map (\<lambda>t. aligned_values idx vals unit [w] t ! 0) idx))"
  using lag_column_distinct[of "\<lparr>index = idx, columns = [(''value'', vals)]\<rparr>" vals "py_min idx" "w * unit"]
    assms
  by (simp add: get_col_def aligned_values_def)


text \<open>What the loop over the candidate offsets leaves behind when it completes.\<close>

lemma lag_columns_result:
  assumes "datetime_col \<noteq> []" "distinct datetime_col" "length value_col = length datetime_col"
    and "\<forall>w. prefix @ str_int w \<noteq> ''value''"
    and "lag_columns prefix unit lag_all datetime_col value_col = Inr (df, lag_cols)"
  defines "mn \<equiv> py_min datetime_col" and "mx \<equiv> py_max datetime_col"
  shows "index df = datetime_col"
    and "lag_cols = map (\<lambda>w. prefix @ str_int w) (filter (\<lambda>w. mn \<le> mx - w * unit) lag_all)"
    and "\<forall>w \<in> set lag_all. mn \<le> mx - w * unit \<longrightarrow>
           get_col df (prefix @ str_int w) =
             Inr (map (\<lambda>t. aligned_values datetime_col value_col unit [w] t ! 0) datetime_col)"
    and "\<forall>n. n \<noteq> ''value'' \<and> n \<notin> (\<lambda>w. prefix @ str_int w) ` set lag_all \<longrightarrow> get_col df n = Inl KeyError"
proof -
  let ?df0 = "\<lparr>index = datetime_col, columns = [(''value'', value_col)]\<rparr>"
  have f: "foldl (lag_step prefix unit mn mx) (Inr (?df0, [])) lag_all = Inr (df, lag_cols)"
    using assms(5) lag_columns_unfold[OF assms(1,3)] by (simp add: mn_def mx_def)
  note L = lag_loop[OF f assms(4)]
  show "index df = datetime_col" using L by simp
  show "lag_cols = map (\<lambda>w. prefix @ str_int w) (filter (\<lambda>w. mn \<le> mx - w * unit) lag_all)"
    using L by simp
  show "\<forall>w \<in> set lag_all. mn \<le> mx - w * unit \<longrightarrow>
           get_col df (prefix @ str_int w) =
             Inr (map (\<lambda>t. aligned_values datetime_col value_col unit [w] t ! 0) datetime_col)"
  proof (intro ballI impI)
    fix w assume w: "w \<in> set lag_all" "mn \<le> mx - w * unit"
    with L obtain c where c: "lag_column ?df0 mn (w * unit) = Inr c"
      "get_col df (prefix @ str_int w) = Inr c" by blast
    from c(1) lag_column_frame0[OF assms(2,3), of w unit]
    have "c = map (\<lambda>t. aligned_values datetime_col value_col unit [w] t ! 0) datetime_col"
      by (simp add: mn_def split: if_splits)
    with c(2) show "get_col df (prefix @ str_int w) =
             Inr (map (\<lambda>t. aligned_values datetime_col value_col unit [w] t ! 0) datetime_col)"
      by simp
  qed
  show "\<forall>n. n \<noteq> ''value'' \<and> n \<notin> (\<lambda>w. prefix @ str_int w) ` set lag_all \<longrightarrow> get_col df n = Inl KeyError"
  proof (intro allI impI)
    fix n assume n: "n \<noteq> ''value'' \<and> n \<notin> (\<lambda>w. prefix @ str_int w) ` set lag_all"
    then have "n \<notin> (\<lambda>w. prefix @ str_int w) ` {w \<in> set lag_all. mn \<le> mx - w * unit}" by auto
    with L have "get_col df n = get_col ?df0 n" by blast
    with n show "get_col df n = Inl KeyError" by (simp add: get_col_def)
  qed
qed

text \<open>The loop can only fail on a row whose shifted timestamp is not before the minimum.\<close>

lemma lag_columns_error:
  assumes "datetime_col \<noteq> []" "distinct datetime_col" "length value_col = length datetime_col"
    and "\<forall>w. prefix @ str_int w \<noteq> ''value''"
    and "lag_columns prefix unit lag_all datetime_col value_col = Inl e"
  shows "e = KeyError \<and>
         (\<exists>w \<in> set lag_all. \<exists>t \<in> set datetime_col.
            py_min datetime_col \<le> t - w * unit \<and> t - w * unit \<notin> set datetime_col)"
proof -
  let ?df0 = "\<lparr>index = datetime_col, columns = [(''value'', value_col)]\<rparr>"
  have f: "foldl (lag_step prefix unit (py_min datetime_col) (py_max datetime_col))
             (Inr (?df0, [])) lag_all = Inl e"
    using assms(5) lag_columns_unfold[OF assms(1,3)] by simp
  from lag_loop_error[OF f assms(4)] obtain w where w: "w \<in> set lag_all"
    "lag_column ?df0 (py_min datetime_col) (w * unit) = Inl e" by blast
  from w(2) lag_column_frame0[OF assms(2,3), of w unit]
  have "e = KeyError \<and> (\<exists>t \<in> set datetime_col.
            py_min datetime_col \<le> t - w * unit \<and> t - w * unit \<notin> set datetime_col)"
    by (simp split: if_splits)
  with w(1) show ?thesis by blast
qed











text \<open>
  Claim C6. On a series of unique timestamps, the loop over the candidate offsets of
  \<open>same_week_day_hour_lag\<close> and \<open>same_day_hour_lag\<close> keeps the column of an offset exactly
  when the latest timestamp minus the offset does not precede the earliest, which is
  exactly when some row can be satisfied; in a kept column a row whose shifted timestamp
  precedes the earliest timestamp is missing; and the loop can only raise for a row
  whose shifted timestamp does not precede the earliest timestamp.
\<close>

theorem lag_columns_insufficient_history:
  assumes "(prefix, unit, lag_all) = (''week_lag_'', 7 * 86400, week_lag_all n_years window) \<or>
           (prefix, unit, lag_all) = (''day_lag_'', 86400, day_lag_all n_years window)"
    and "datetime_col \<noteq> []" and "distinct datetime_col"
    and "length value_col = length datetime_col"
  defines "mn \<equiv> py_min datetime_col" and "mx \<equiv> py_max datetime_col"
  shows "(\<forall>w \<in> set lag_all. (mx - w * unit < mn) \<longleftrightarrow> (\<forall>t \<in> set datetime_col. t - w * unit < mn)) \<and>
         (case lag_columns prefix unit lag_all datetime_col value_col of
            Inl e \<Rightarrow> \<exists>w \<in> set lag_all. \<exists>t \<in> set datetime_col.
                       \<not> t - w * unit < mn \<and> t - w * unit \<notin> set datetime_col
          | Inr (df, lag_cols) \<Rightarrow>
              lag_cols = map (\<lambda>w. prefix @ str_int w) (filter (\<lambda>w. \<not> mx - w * unit < mn) lag_all) \<and>
              (\<forall>w \<in> set lag_all. mx - w * unit < mn \<longrightarrow> get_col df (prefix @ str_int w) = Inl KeyError) \<and>
              (\<forall>w \<in> set lag_all. \<not> mx - w * unit < mn \<longrightarrow>
                 (\<exists>c. get_col df (prefix @ str_int w) = Inr c \<and> length c = length datetime_col \<and>
                      (\<forall>i < length datetime_col.
                         datetime_col ! i - w * unit < mn \<longrightarrow> c ! i = None))))"
proof -
  have nv: "\<forall>w. prefix @ str_int w \<noteq> ''value''" using assms(1) by auto
  have iff: "(mx - w * unit < mn) \<longleftrightarrow> (\<forall>t \<in> set datetime_col. t - w * unit < mn)" for w
  proof
    assume "mx - w * unit < mn"
    then show "\<forall>t \<in> set datetime_col. t - w * unit < mn"
      using py_max_ge[of _ datetime_col] by (fastforce simp: mx_def)
  next
    assume "\<forall>t \<in> set datetime_col. t - w * unit < mn"
    then show "mx - w * unit < mn"
      using py_max_in[OF assms(2)] by (simp add: mx_def)
  qed
  have res: ?thesis if lc: "lag_columns prefix unit lag_all datetime_col value_col = Inr (df, lag_cols)"
    for df lag_cols
  proof -
    note R = lag_columns_result[OF assms(2,3,4) nv lc, folded mn_def mx_def]
    have cols: "lag_cols = map (\<lambda>w. prefix @ str_int w) (filter (\<lambda>w. \<not> mx - w * unit < mn) lag_all)"
      using R(2) by (simp add: not_less)
    have kept: "\<exists>c. get_col df (prefix @ str_int w) = Inr c \<and> length c = length datetime_col \<and>
                      (\<forall>i < length datetime_col. datetime_col ! i - w * unit < mn \<longrightarrow> c ! i = None)"
      if "w \<in> set lag_all" "\<not> mx - w * unit < mn" for w
      using R(3) that by (simp add: not_less aligned_values_def mn_def)
    have dropped: "get_col df (prefix @ str_int w) = Inl KeyError"
      if w: "w \<in> set lag_all" "mx - w * unit < mn" for w
    proof -
      let ?df0 = "\<lparr>index = datetime_col, columns = [(''value'', value_col)]\<rparr>"
      have f: "foldl (lag_step prefix unit mn mx) (Inr (?df0, [])) lag_all = Inr (df, lag_cols)"
        using lc lag_columns_unfold[OF assms(2,4)] by (simp add: mn_def mx_def)
      have "prefix @ str_int w \<notin> (\<lambda>w. prefix @ str_int w) ` {w \<in> set lag_all. mn \<le> mx - w * unit}"
        using w(2) by (auto dest!: str_int_inj)
      with lag_loop[OF f nv] have "get_col df (prefix @ str_int w) = get_col ?df0 (prefix @ str_int w)"
        by blast
      then show ?thesis using nv by (simp add: get_col_def)
    qed
    show ?thesis using iff cols kept dropped by (simp add: lc)
  qed
  have err: ?thesis if le: "lag_columns prefix unit lag_all datetime_col value_col = Inl e" for e
    using lag_columns_error[OF assms(2,3,4) nv le] iff by (simp add: le not_less mn_def)
  show ?thesis
  proof (cases "lag_columns prefix unit lag_all datetime_col value_col")
    case (Inl e)
    then show ?thesis by (rule err)
  next
    case (Inr p)
    obtain df lag_cols where "p = (df, lag_cols)" by (cases p)
    with Inr show ?thesis by (intro res) simp
  qed
qed


theorem lag_columns_insufficient_history_witness:
  "lag_columns ''day_lag_'' 86400 (day_lag_all 3 1) [0, 86400, 31449600, 31536000]
      [Some 1, Some 2, Some 5, Some 7] =
     Inr (\<lparr>index = [0, 86400, 31449600, 31536000],
           columns = [(''value'', [Some 1, Some 2, Some 5, Some 7]),
                      (''day_lag_364'', [None, None, Some 1, Some 2]),
                      (''day_lag_365'', [None, None, None, Some 1])]\<rparr>,
          [''day_lag_364'', ''day_lag_365'']) \<and>
   get_col \<lparr>index = [0, 86400, 31449600, 31536000],
           columns = [(''value'', [Some 1, Some 2, Some 5, Some 7]),
                      (''day_lag_364'', [None, None, Some 1, Some 2]),
                      (''day_lag_365'', [None, None, None, Some 1])]\<rparr>
     (''day_lag_'' @ str_int 366) = Inl KeyError"
proof -
  let ?idx = "[0, 86400, 31449600, 31536000 :: int]"
  let ?vals = "[Some 1, Some 2, Some 5, Some 7 :: real option]"
  let ?df = "\<lparr>index = ?idx,
           columns = [(''value'', ?vals),
                      (''day_lag_364'', [None, None, Some 1, Some 2]),
                      (''day_lag_365'', [None, None, None, Some 1])]\<rparr>"
  have ev: "lag_columns ''day_lag_'' 86400 (day_lag_all 3 1) ?idx ?vals =
              Inr (?df, [''day_lag_364'', ''day_lag_365''])"
    by code_simp
  have h1: "(''day_lag_'', 86400, day_lag_all 3 1) = (''week_lag_'', 7 * 86400, week_lag_all 3 1) \<or>
            (''day_lag_'', 86400 :: int, day_lag_all 3 1) = (''day_lag_'', 86400, day_lag_all 3 1)"
    by simp
  have h2: "?idx \<noteq> []" and h3: "distinct ?idx" and h4: "length ?vals = length ?idx" by simp_all
  have w: "(366 :: int) \<in> set (day_lag_all 3 1)" by code_simp
  have lt: "py_max ?idx - 366 * 86400 < py_min ?idx" by code_simp
  from lag_columns_insufficient_history[OF h1 h2 h3 h4] ev
  have "\<forall>w \<in> set (day_lag_all 3 1). py_max ?idx - w * 86400 < py_min ?idx \<longrightarrow>
          get_col ?df (''day_lag_'' @ str_int w) = Inl KeyError"
    by simp
  with w lt have "get_col ?df (''day_lag_'' @ str_int 366) = Inl KeyError" by blast
  with ev show ?thesis by blast
qed






section \<open>Properties of the moving aggregates\<close>

lemma timedelta_hours_eq: "timedelta_hours x = real_of_int x / 3600"
proof -
  have "x = (x div 86400) * 86400 + x mod 86400" by simp
  then have "real_of_int x = real_of_int (x div 86400) * 86400 + real_of_int (x mod 86400)"
    by (metis of_int_add of_int_mult of_int_numeral)
  then show ?thesis by (simp add: timedelta_hours_def field_simps)
qed

lemma date_range_H_nth:
  "j < length (date_range_H lo hi) \<Longrightarrow> date_range_H lo hi ! j = lo + int j * 3600"
  by (simp add: date_range_H_def)

lemma date_range_H_sorted: "sorted (date_range_H lo hi)"
  unfolding sorted_iff_nth_mono
  by (auto simp: date_range_H_nth)

lemma moving_prepare_valid:
  assumes "datetime_col \<noteq> []" "distinct datetime_col" "length value_col = length datetime_col"
  defines "grid \<equiv> date_range_H (py_min datetime_col) (py_max datetime_col)"
  shows "moving_prepare datetime_col value_col fct =
         Inr (\<lparr>index = grid,
               columns = [(''value'', reindex datetime_col value_col grid),
                          (''fct_diff'', map (\<lambda>t. Some (timedelta_hours (t - fct))) grid)]\<rparr>,
              py_max (map (\<lambda>t. timedelta_hours (t - fct)) grid))"
  using assms(1-3)
  by (simp add: moving_prepare_def make_frame_def asfreq_H_def Let_def date_range_H_sorted
      set_col_def grid_def o_def)

lemma moving_prepare_invalid:
  assumes "datetime_col = [] \<or> \<not> distinct datetime_col \<or> length value_col \<noteq> length datetime_col"
  shows "moving_prepare datetime_col value_col fct = Inl ValueError"
  using assms by (auto simp: moving_prepare_def make_frame_def asfreq_H_def)

lemma unguarded_step_Inl: "unguarded_step assign p W s m (Inl e) i = Inl e"
  by (simp add: unguarded_step_def)

lemma guarded_step_Inl: "guarded_step agg p W s m (Inl e) i = Inl e"
  by (simp add: guarded_step_def)

lemma foldl_unguarded_Inl: "foldl (unguarded_step assign p W s m) (Inl e) is = Inl e"
  by (induction "is") (simp_all add: unguarded_step_Inl)








text \<open>
  Frames that agree before the forecast creation time stay so along the loop, and the
  shifted columns that the loop reads are the same in both.
\<close>

lemma agree_before_refl: "length c = length idx \<Longrightarrow> agree_before idx fct c c"
  by (simp add: agree_before_def)

lemma columns_agree_lookup:
  assumes "list_all2 (\<lambda>(n1, c1) (n2, c2). n1 = n2 \<and> Q n1 c1 c2) xs ys"
  shows "rel_option (Q n) (map_of xs n) (map_of ys n)"
  using assms by (induction rule: list_all2_induct) auto

lemma columns_agree_update:
  assumes "list_all2 (\<lambda>(n1, c1) (n2, c2). n1 = n2 \<and> Q n1 c1 c2) xs ys" and "Q n c c"
  shows "list_all2 (\<lambda>(n1, c1) (n2, c2). n1 = n2 \<and> Q n1 c1 c2)
           (AList.update n c xs) (AList.update n c ys)"
  using assms by (induction rule: list_all2_induct) auto

lemma columns_agree_filter:
  assumes "list_all2 (\<lambda>(n1, c1) (n2, c2). n1 = n2 \<and> (if n1 = v then Q c1 c2 else c1 = c2)) xs ys"
    and "v \<in> set names"
  shows "filter (\<lambda>(n, c). n \<notin> set names) xs = filter (\<lambda>(n, c). n \<notin> set names) ys"
  using assms by (induction rule: list_all2_induct) (auto split: if_splits)

lemma frames_agree_value:
  assumes "frames_agree_before fct df1 df2"
  shows "rel_sum (=) (agree_before (index df1) fct) (get_col df1 ''value'') (get_col df2 ''value'')"
proof -
  from assms have "list_all2 (\<lambda>(n1, c1) (n2, c2). n1 = n2 \<and>
        (if n1 = ''value'' then agree_before (index df1) fct c1 c2 else c1 = c2))
        (columns df1) (columns df2)"
    by (simp add: frames_agree_before_def)
  from columns_agree_lookup[OF this, of "''value''"] show ?thesis
    by (cases "map_of (columns df1) ''value''"; cases "map_of (columns df2) ''value''")
       (simp_all add: get_col_def)
qed

lemma frames_agree_set_col:
  assumes "frames_agree_before fct df1 df2" "length c = length (index df1)"
  shows "frames_agree_before fct (set_col df1 n c) (set_col df2 n c)"
proof -
  from assms(1) have i: "index df1 = index df2"
    and l: "list_all2 (\<lambda>(n1, c1) (n2, c2). n1 = n2 \<and>
        (if n1 = ''value'' then agree_before (index df1) fct c1 c2 else c1 = c2))
        (columns df1) (columns df2)"
    by (simp_all add: frames_agree_before_def)
  have "if n = ''value'' then agree_before (index df1) fct c c else c = c"
    using assms(2) by (simp add: agree_before_refl)
  note u = columns_agree_update[OF l, of n c, OF this]
  have c1: "columns (set_col df1 n c) = AList.update n c (columns df1)"
    and c2: "columns (set_col df2 n c) = AList.update n c (columns df2)"
    by (simp_all add: set_col_def)
  show ?thesis
    unfolding frames_agree_before_def index_set_col c1 c2 by (intro conjI i u)
qed

lemma frames_agree_drop:
  assumes "frames_agree_before fct df1 df2"
  shows "drop_cols df1 [''fct_diff'', ''value''] = drop_cols df2 [''fct_diff'', ''value'']"
proof -
  from assms have i: "index df1 = index df2"
    and l: "list_all2 (\<lambda>(n1, c1) (n2, c2). n1 = n2 \<and>
        (if n1 = ''value'' then agree_before (index df1) fct c1 c2 else c1 = c2))
        (columns df1) (columns df2)"
    by (simp_all add: frames_agree_before_def)
  have "filter (\<lambda>(n, c). n \<notin> set [''fct_diff'', ''value'']) (columns df1) =
        filter (\<lambda>(n, c). n \<notin> set [''fct_diff'', ''value'']) (columns df2)"
    by (rule columns_agree_filter[OF l]) simp
  with i show ?thesis by (simp add: drop_cols_def)
qed

text \<open>
  The leakage guard: a lag of more than \<open>max_diff\<close> hours reads, in every row, a cell
  whose timestamp is strictly before the forecast creation time.
\<close>

lemma shift_agree:
  assumes "agree_before (date_range_H lo hi) fct a b"
    and "\<forall>t \<in> set (date_range_H lo hi). real_of_int (t - fct) / 3600 \<le> m"
    and "m < real_of_int h"
  shows "shift h a = shift h b"
proof -
  let ?g = "date_range_H lo hi"
  from assms(1) have la: "length a = length ?g" and lb: "length b = length ?g"
    and ag: "\<And>i. i < length ?g \<Longrightarrow> ?g ! i < fct \<Longrightarrow> a ! i = b ! i"
    by (simp_all add: agree_before_def)
  have cell: "a ! nat (int j - h) = b ! nat (int j - h)"
    if j: "j < length ?g" and k: "0 \<le> int j - h" "int j - h < int (length ?g)" for j
  proof -
    have kl: "nat (int j - h) < length ?g" using k by simp
    have "?g ! j \<in> set ?g" using j by simp
    with assms(2) have "real_of_int (?g ! j - fct) / 3600 \<le> m" by blast
    with assms(3) have "real_of_int (?g ! j - fct) < real_of_int h * 3600"
      by (simp add: field_simps)
    then have "?g ! j - fct < h * 3600" by (metis of_int_less_iff of_int_mult of_int_numeral)
    moreover have "?g ! j = lo + int j * 3600" using j by (rule date_range_H_nth)
    moreover have "?g ! nat (int j - h) = lo + (int j - h) * 3600"
      using date_range_H_nth[OF kl] k(1) by simp
    ultimately have "?g ! nat (int j - h) < fct" by (simp add: algebra_simps)
    from ag[OF kl this] show ?thesis .
  qed
  show ?thesis
    unfolding shift_def la lb
    by (intro map_cong refl) (simp add: la lb cell Let_def)
qed

lemma hour_lags_beyond: "h \<in> set (hour_lags wls W m) \<Longrightarrow> m < real_of_int h"
  by (simp add: hour_lags_def)

lemma lagged_columns_agree:
  assumes "frames_agree_before fct df1 df2" "index df1 = date_range_H lo hi"
    and "\<forall>t \<in> set (date_range_H lo hi). real_of_int (t - fct) / 3600 \<le> m"
  shows "lagged_columns df1 (hour_lags wls W m) = lagged_columns df2 (hour_lags wls W m)"
proof -
  note r = frames_agree_value[OF assms(1)]
  show ?thesis
  proof (cases "get_col df1 ''value''")
    case (Inl e)
    with r have "get_col df2 ''value'' = Inl e" by (cases "get_col df2 ''value''") simp_all
    with Inl show ?thesis by (simp add: lagged_columns_def)
  next
    case (Inr a)
    with r obtain b where b: "get_col df2 ''value'' = Inr b" "agree_before (index df1) fct a b"
      by (cases "get_col df2 ''value''") simp_all
    have "shift h a = shift h b" if "h \<in> set (hour_lags wls W m)" for h
      using b(2) assms(3) hour_lags_beyond[OF that] unfolding assms(2) by (rule shift_agree)
    then have "map (\<lambda>h. shift h a) (hour_lags wls W m) = map (\<lambda>h. shift h b) (hour_lags wls W m)"
      by (intro map_cong refl)
    with Inr b(1) show ?thesis by (simp add: lagged_columns_def)
  qed
qed

lemma guarded_step_agree:
  assumes "frames_agree_before fct df1 df2" "index df1 = date_range_H lo hi"
    and "\<forall>t \<in> set (date_range_H lo hi). real_of_int (t - fct) / 3600 \<le> m"
  shows "rel_sum (=) (\<lambda>d1 d2. frames_agree_before fct d1 d2 \<and> index d1 = date_range_H lo hi)
           (guarded_step agg p W s m (Inr df1) i) (guarded_step agg p W s m (Inr df2) i)"
proof -
  note lc = lagged_columns_agree[OF assms, of "s + i" W]
  have i: "index df2 = index df1" using assms(1) by (simp add: frames_agree_before_def)
  show ?thesis
  proof (cases "lagged_columns df2 (hour_lags (s + i) W m)")
    case (Inl e)
    with lc assms(1,2) show ?thesis by (simp add: guarded_step_def Let_def)
  next
    case (Inr cs)
    with lc assms(1,2) i show ?thesis
      by (simp add: guarded_step_def Let_def frames_agree_set_col rows_of_def)
  qed
qed

lemma unguarded_step_agree:
  assumes "frames_agree_before fct df1 df2" "index df1 = date_range_H lo hi"
    and "\<forall>t \<in> set (date_range_H lo hi). real_of_int (t - fct) / 3600 \<le> m"
  shows "rel_sum (=) (\<lambda>(d1, t1) (d2, t2). frames_agree_before fct d1 d2 \<and>
                        index d1 = date_range_H lo hi \<and> t1 = t2)
           (unguarded_step assign p W s m (Inr (df1, tmp)) i)
           (unguarded_step assign p W s m (Inr (df2, tmp)) i)"
proof -
  note lc = lagged_columns_agree[OF assms, of "s + i" W]
  have i: "index df2 = index df1" using assms(1) by (simp add: frames_agree_before_def)
  show ?thesis
  proof (cases "lagged_columns df2 (hour_lags (s + i) W m)")
    case (Inl e)
    with lc assms(1,2) i show ?thesis
      by (cases assign; cases tmp)
         (simp_all add: unguarded_step_def Let_def frames_agree_set_col rows_of_def)
  next
    case (Inr cs)
    with lc assms(1,2) i show ?thesis
      by (cases assign; cases tmp)
         (simp_all add: unguarded_step_def Let_def frames_agree_set_col rows_of_def)
  qed
qed

lemma foldl_guarded_agree:
  assumes "rel_sum (=) (\<lambda>d1 d2. frames_agree_before fct d1 d2 \<and> index d1 = date_range_H lo hi) s1 s2"
    and "\<forall>t \<in> set (date_range_H lo hi). real_of_int (t - fct) / 3600 \<le> m"
  shows "rel_sum (=) (\<lambda>d1 d2. frames_agree_before fct d1 d2 \<and> index d1 = date_range_H lo hi)
           (foldl (guarded_step agg p W s m) s1 is) (foldl (guarded_step agg p W s m) s2 is)"
  using assms(1)
proof (induction "is" arbitrary: s1 s2)
  case Nil
  then show ?case by simp
next
  case (Cons i "is")
  have "rel_sum (=) (\<lambda>d1 d2. frames_agree_before fct d1 d2 \<and> index d1 = date_range_H lo hi)
          (guarded_step agg p W s m s1 i) (guarded_step agg p W s m s2 i)"
  proof (cases s1)
    case (Inl e)
    with Cons.prems show ?thesis by (cases s2) (simp_all add: guarded_step_Inl)
  next
    case (Inr d1)
    with Cons.prems obtain d2 where "s2 = Inr d2" "frames_agree_before fct d1 d2"
      "index d1 = date_range_H lo hi" by (cases s2) simp_all
    with Inr guarded_step_agree[OF this(2,3) assms(2)] show ?thesis by simp
  qed
  from Cons.IH[OF this] show ?case by simp
qed

lemma foldl_unguarded_agree:
  assumes "rel_sum (=) (\<lambda>(d1, t1) (d2, t2). frames_agree_before fct d1 d2 \<and>
                        index d1 = date_range_H lo hi \<and> t1 = t2) s1 s2"
    and "\<forall>t \<in> set (date_range_H lo hi). real_of_int (t - fct) / 3600 \<le> m"
  shows "rel_sum (=) (\<lambda>(d1, t1) (d2, t2). frames_agree_before fct d1 d2 \<and>
                        index d1 = date_range_H lo hi \<and> t1 = t2)
           (foldl (unguarded_step assign p W s m) s1 is)
           (foldl (unguarded_step assign p W s m) s2 is)"
  using assms(1)
proof (induction "is" arbitrary: s1 s2)
  case Nil
  then show ?case by simp
next
  case (Cons i "is")
  have "rel_sum (=) (\<lambda>(d1, t1) (d2, t2). frames_agree_before fct d1 d2 \<and>
                        index d1 = date_range_H lo hi \<and> t1 = t2)
          (unguarded_step assign p W s m s1 i) (unguarded_step assign p W s m s2 i)"
  proof (cases s1)
    case (Inl e)
    with Cons.prems show ?thesis by (cases s2) (simp_all add: unguarded_step_Inl)
  next
    case (Inr x1)
    obtain d1 tmp where x1: "x1 = (d1, tmp)" by (cases x1)
    with Inr Cons.prems obtain d2 where "s2 = Inr (d2, tmp)" "frames_agree_before fct d1 d2"
      "index d1 = date_range_H lo hi" by (cases s2) auto
    with Inr x1 unguarded_step_agree[OF this(2,3) assms(2)] show ?thesis by simp
  qed
  from Cons.IH[OF this] show ?case by simp
qed

lemma reindex_agree:
  assumes "agree_before idx fct v1 v2" "distinct idx"
  shows "agree_before grid fct (reindex idx v1 grid) (reindex idx v2 grid)"
proof -
  from assms(1) have l1: "length v1 = length idx" and l2: "length v2 = length idx"
    and ag: "\<And>i. i < length idx \<Longrightarrow> idx ! i < fct \<Longrightarrow> v1 ! i = v2 ! i"
    by (simp_all add: agree_before_def)
  have "value_at idx v1 t = value_at idx v2 t" if "t < fct" for t
  proof (cases "t \<in> set idx")
    case True
    then obtain i where i: "i < length idx" "idx ! i = t" by (auto simp: in_set_conv_nth)
    have "map_of (zip idx v1) (idx ! i) = Some (v1 ! i)" "map_of (zip idx v2) (idx ! i) = Some (v2 ! i)"
      using i(1) assms(2) l1 l2 by (simp_all add: map_of_zip_nth)
    with i ag[OF i(1)] that show ?thesis by (simp add: value_at_def)
  next
    case False
    then have "map_of (zip idx v1) t = None" "map_of (zip idx v2) t = None"
      using l1 l2 by (simp_all add: map_of_zip_is_None)
    then show ?thesis by (simp add: value_at_def)
  qed
  then show ?thesis by (simp add: agree_before_def reindex_def)
qed

lemma max_diff_bound:
  "\<forall>t \<in> set grid. real_of_int (t - fct) / 3600 \<le> py_max (map (\<lambda>t. timedelta_hours (t - fct)) grid)"
proof
  fix t assume "t \<in> set grid"
  then have "timedelta_hours (t - fct) \<in> set (map (\<lambda>t. timedelta_hours (t - fct)) grid)" by simp
  from py_max_ge[OF this] show "real_of_int (t - fct) / 3600 \<le> py_max (map (\<lambda>t. timedelta_hours (t - fct)) grid)"
    by (simp add: timedelta_hours_eq)
qed

text \<open>
  The moving-aggregate functions do not read the value column at or after the forecast
  creation time: on two value columns that agree before it they return the same.
\<close>

lemma moving_guarded_agree:
  assumes "agree_before datetime_col fct v1 v2"
  shows "moving_guarded agg datetime_col v1 W s c fct p = moving_guarded agg datetime_col v2 W s c fct p"
proof (cases "datetime_col = [] \<or> \<not> distinct datetime_col")
  case True
  then have "moving_prepare datetime_col v1 fct = Inl ValueError"
    "moving_prepare datetime_col v2 fct = Inl ValueError"
    by (auto intro: moving_prepare_invalid)
  then show ?thesis by (simp add: moving_guarded_def)
next
  case False
  then have v: "datetime_col \<noteq> []" "distinct datetime_col" by simp_all
  from assms have l: "length v1 = length datetime_col" "length v2 = length datetime_col"
    by (simp_all add: agree_before_def)
  let ?grid = "date_range_H (py_min datetime_col) (py_max datetime_col)"
  let ?fd = "(''fct_diff'', map (\<lambda>t. Some (timedelta_hours (t - fct))) ?grid)"
  let ?df = "\<lambda>v. \<lparr>index = ?grid, columns = [(''value'', reindex datetime_col v ?grid), ?fd]\<rparr>"
  let ?m = "py_max (map (\<lambda>t. timedelta_hours (t - fct)) ?grid)"
  have a: "frames_agree_before fct (?df v1) (?df v2)"
    using reindex_agree[OF assms v(2), of ?grid] by (simp add: frames_agree_before_def)
  then have "rel_sum (=) (\<lambda>d1 d2. frames_agree_before fct d1 d2 \<and> index d1 = ?grid)
               (Inr (?df v1)) (Inr (?df v2))"
    by simp
  from foldl_guarded_agree[OF this max_diff_bound, of agg p W s "py_range 0 c"]
  have "rel_sum (=) (\<lambda>d1 d2. frames_agree_before fct d1 d2 \<and> index d1 = ?grid)
          (foldl (guarded_step agg p W s ?m) (Inr (?df v1)) (py_range 0 c))
          (foldl (guarded_step agg p W s ?m) (Inr (?df v2)) (py_range 0 c))" .
  then show ?thesis
    unfolding moving_guarded_def moving_prepare_valid[OF v l(1)] moving_prepare_valid[OF v l(2)]
    by (cases rule: rel_sum.cases) (auto simp: frames_agree_drop)
qed

lemma moving_unguarded_agree:
  assumes "agree_before datetime_col fct v1 v2"
  shows "moving_unguarded assign datetime_col v1 W s c fct p =
         moving_unguarded assign datetime_col v2 W s c fct p"
proof (cases "datetime_col = [] \<or> \<not> distinct datetime_col")
  case True
  then have "moving_prepare datetime_col v1 fct = Inl ValueError"
    "moving_prepare datetime_col v2 fct = Inl ValueError"
    by (auto intro: moving_prepare_invalid)
  then show ?thesis by (simp add: moving_unguarded_def)
next
  case False
  then have v: "datetime_col \<noteq> []" "distinct datetime_col" by simp_all
  from assms have l: "length v1 = length datetime_col" "length v2 = length datetime_col"
    by (simp_all add: agree_before_def)
  let ?grid = "date_range_H (py_min datetime_col) (py_max datetime_col)"
  let ?fd = "(''fct_diff'', map (\<lambda>t. Some (timedelta_hours (t - fct))) ?grid)"
  let ?df = "\<lambda>v. \<lparr>index = ?grid, columns = [(''value'', reindex datetime_col v ?grid), ?fd]\<rparr>"
  let ?m = "py_max (map (\<lambda>t. timedelta_hours (t - fct)) ?grid)"
  have a: "frames_agree_before fct (?df v1) (?df v2)"
    using reindex_agree[OF assms v(2), of ?grid] by (simp add: frames_agree_before_def)
  then have "rel_sum (=) (\<lambda>(d1, t1) (d2, t2). frames_agree_before fct d1 d2 \<and>
                  index d1 = ?grid \<and> t1 = t2)
               (Inr (?df v1, None)) (Inr (?df v2, None))"
    by simp
  from foldl_unguarded_agree[OF this max_diff_bound, of assign p W s "py_range 0 c"]
  have "rel_sum (=) (\<lambda>(d1, t1) (d2, t2). frames_agree_before fct d1 d2 \<and>
                  index d1 = ?grid \<and> t1 = t2)
          (foldl (unguarded_step assign p W s ?m) (Inr (?df v1, None)) (py_range 0 c))
          (foldl (unguarded_step assign p W s ?m) (Inr (?df v2, None)) (py_range 0 c))" .
  then show ?thesis
    unfolding moving_unguarded_def moving_prepare_valid[OF v l(1)] moving_prepare_valid[OF v l(2)]
    by (cases rule: rel_sum.cases) (auto simp: frames_agree_drop)
qed

text \<open>
  The forecast-creation-time guard of the four moving-aggregate functions: changing the
  value column at timestamps at or after the forecast creation time changes nothing of
  what they return.
\<close>

theorem moving_aggregates_ignore_future:
  assumes "agree_before datetime_col forecast_creation_time v1 v2"
  shows "same_day_hour_moving_average datetime_col v1 window_size start_week count
           forecast_creation_time prefix =
         same_day_hour_moving_average datetime_col v2 window_size start_week count
           forecast_creation_time prefix \<and>
         same_day_hour_moving_quantile quantile datetime_col v1 window_size start_week count q
           forecast_creation_time prefix =
         same_day_hour_moving_quantile quantile datetime_col v2 window_size start_week count q
           forecast_creation_time prefix \<and>
         same_day_hour_moving_std std datetime_col v1 window_size start_week count
           forecast_creation_time prefix =
         same_day_hour_moving_std std datetime_col v2 window_size start_week count
           forecast_creation_time prefix \<and>
         same_day_hour_moving_agg quantile std datetime_col v1 window_size start_week count
           forecast_creation_time agg_func q' prefix =
         same_day_hour_moving_agg quantile std datetime_col v2 window_size start_week count
           forecast_creation_time agg_func q' prefix"
  unfolding same_day_hour_moving_average_def same_day_hour_moving_quantile_def
    same_day_hour_moving_std_def same_day_hour_moving_agg_def
  using moving_guarded_agree[OF assms] moving_unguarded_agree[OF assms] by simp

theorem moving_aggregates_ignore_future_witness:
  "agree_before [0, 3600, 7200] 3600 [Some 1, Some 2, Some 3] [Some 1, Some 8, Some 9] \<and>
   same_day_hour_moving_average [0, 3600, 7200] [Some 1, Some 2, Some 3] 2 0 2 3600 ''moving_average_lag_'' =
   same_day_hour_moving_average [0, 3600, 7200] [Some 1, Some 8, Some 9] 2 0 2 3600 ''moving_average_lag_''"
proof -
  have a: "agree_before [0, 3600, 7200] 3600 [Some 1, Some 2, Some 3] [Some 1, Some 8, Some 9]"
    by (simp add: agree_before_def less_Suc_eq)
  from moving_aggregates_ignore_future[OF a] a show ?thesis by blast
qed

lemma digit_char_digit: "d < 10 \<Longrightarrow> digit_char d \<in> set ''0123456789''"
proof -
  assume "d < 10"
  then have "d \<in> {0,1,2,3,4,5,6,7,8,9}" by auto
  then show ?thesis unfolding digit_char_def by (elim insertE emptyE) simp_all
qed

lemma str_int_last: "str_int k \<noteq> [] \<and> last (str_int k) \<in> set ''0123456789''"
  using string_of_nat_nonempty digit_char_digit[of "nat (- k) mod 10"] digit_char_digit[of "nat k mod 10"]
  by (simp add: str_int_def string_of_nat_last)

lemma col_name_not_reserved: "p @ str_int k \<noteq> ''value''" "p @ str_int k \<noteq> ''fct_diff''"
proof -
  have l: "last (p @ str_int k) \<in> set ''0123456789''" using str_int_last[of k] by simp
  show "p @ str_int k \<noteq> ''value''"
  proof
    assume "p @ str_int k = ''value''"
    with l show False by simp
  qed
  show "p @ str_int k \<noteq> ''fct_diff''"
  proof
    assume "p @ str_int k = ''fct_diff''"
    with l show False by simp
  qed
qed

lemma guarded_loop_keeps:
  assumes "get_col df ''value'' = Inr v" "get_col df n = Inl KeyError"
    and "\<forall>j \<in> set is. hour_lags (s + j) W m \<noteq> [] \<longrightarrow> p @ str_int (s + j) \<noteq> n"
  shows "\<exists>df'. foldl (guarded_step agg p W s m) (Inr df) is = Inr df' \<and>
               get_col df' ''value'' = Inr v \<and> get_col df' n = Inl KeyError \<and> index df' = index df"
  using assms
proof (induction "is" arbitrary: df)
  case Nil
  then show ?case by simp
next
  case (Cons j "is")
  have "\<exists>df1. guarded_step agg p W s m (Inr df) j = Inr df1 \<and> get_col df1 ''value'' = Inr v \<and>
          get_col df1 n = Inl KeyError \<and> index df1 = index df"
  proof (cases "hour_lags (s + j) W m = []")
    case True
    with Cons.prems show ?thesis by (simp add: guarded_step_def)
  next
    case False
    with Cons.prems(3) have "p @ str_int (s + j) \<noteq> n" by simp
    with False Cons.prems(1,2) col_name_not_reserved(1)[of p "s + j"] show ?thesis
      by (simp add: guarded_step_def Let_def lagged_columns_def eq_commute[of n]
          eq_commute[of "''value''"])
  qed
  then obtain df1 where s: "guarded_step agg p W s m (Inr df) j = Inr df1"
    "get_col df1 ''value'' = Inr v" "get_col df1 n = Inl KeyError" "index df1 = index df" by blast
  from Cons.IH[OF s(2,3)] Cons.prems(3) s(1,4) show ?case by simp
qed

lemma drop_cols_missing: "get_col df n = Inl KeyError \<Longrightarrow> get_col (drop_cols df names) n = Inl KeyError"
proof -
  have "map_of xs n = None \<Longrightarrow> map_of (filter (\<lambda>(n, c). n \<notin> set names) xs) n = None" for xs :: "(string \<times> column) list"
    by (induction xs) (auto split: if_splits)
  then show "get_col df n = Inl KeyError \<Longrightarrow> get_col (drop_cols df names) n = Inl KeyError"
    by (auto simp: get_col_def drop_cols_def split: option.splits)
qed

lemma moving_guarded_omits:
  assumes "datetime_col \<noteq> []" "distinct datetime_col" "length value_col = length datetime_col"
    and "moving_prepare datetime_col value_col fct = Inr (df, max_diff)"
    and "hour_lags (start_week + i) window_size max_diff = []"
  shows "\<exists>fr. moving_guarded agg datetime_col value_col window_size start_week count fct p = Inr fr \<and>
              get_col fr (p @ str_int (start_week + i)) = Inl KeyError"
proof -
  let ?n = "p @ str_int (start_week + i)"
  from assms(4) moving_prepare_valid[OF assms(1-3), of fct]
  have g: "get_col df ''value'' = Inr (reindex datetime_col value_col
              (date_range_H (py_min datetime_col) (py_max datetime_col)))"
    and k: "get_col df ?n = Inl KeyError"
    using col_name_not_reserved[of p "start_week + i"]
    by (auto simp: get_col_def)
  have "\<forall>j \<in> set (py_range 0 count). hour_lags (start_week + j) window_size max_diff \<noteq> [] \<longrightarrow>
          p @ str_int (start_week + j) \<noteq> ?n"
    using assms(5) by (auto dest!: str_int_inj)
  from guarded_loop_keeps[OF g k this, of agg] obtain df' where
    "foldl (guarded_step agg p window_size start_week max_diff) (Inr df) (py_range 0 count) = Inr df'"
    "get_col df' ?n = Inl KeyError" by blast
  then show ?thesis by (simp add: moving_guarded_def assms(4) drop_cols_missing)
qed

text \<open>
  \<open>same_day_hour_moving_average\<close> and \<open>same_day_hour_moving_std\<close> leave out the column of
  a feature all of whose candidate lags are excluded.
\<close>

theorem moving_average_omits_excluded:
  assumes "datetime_col \<noteq> []" and "distinct datetime_col"
    and "length value_col = length datetime_col"
    and "moving_prepare datetime_col value_col forecast_creation_time = Inr (df, max_diff)"
    and "hour_lags (start_week + i) window_size max_diff = []"
  shows "(\<exists>fr. same_day_hour_moving_average datetime_col value_col window_size start_week count
                 forecast_creation_time prefix = Inr fr \<and>
               get_col fr (prefix @ str_int (start_week + i)) = Inl KeyError) \<and>
         (\<exists>fr. same_day_hour_moving_std std datetime_col value_col window_size start_week count
                 forecast_creation_time prefix = Inr fr \<and>
               get_col fr (prefix @ str_int (start_week + i)) = Inl KeyError)"
  unfolding same_day_hour_moving_average_def same_day_hour_moving_std_def
  using moving_guarded_omits[OF assms] by blast

theorem moving_average_omits_excluded_witness:
  "hour_lags (0 + 0) 1 1 = [] \<and>
   (\<exists>fr. same_day_hour_moving_average [0, 3600, 7200] [Some 1, Some 2, Some 3] 1 0 1 3600
           ''moving_average_lag_'' = Inr fr \<and>
         get_col fr (''moving_average_lag_'' @ str_int (0 + 0)) = Inl KeyError)"
proof -
  have h1: "[0, 3600, 7200 :: int] \<noteq> []" and h2: "distinct [0, 3600, 7200 :: int]"
    and h3: "length [Some 1, Some 2, Some 3 :: real option] = length [0, 3600, 7200 :: int]"
    by simp_all
  have h4: "moving_prepare [0, 3600, 7200] [Some 1, Some 2, Some 3] 3600 =
              Inr (\<lparr>index = [0, 3600, 7200],
                    columns = [(''value'', [Some 1, Some 2, Some 3]),
                               (''fct_diff'', [Some (- 1), Some 0, Some 1])]\<rparr>, 1)"
    by code_simp
  have h5: "hour_lags (0 + 0) 1 1 = []" by code_simp
  from moving_average_omits_excluded[OF h1 h2 h3 h4 h5, of 1 "''moving_average_lag_''"] h5
  show ?thesis by blast
qed

text \<open>
  \<open>same_day_hour_moving_quantile\<close> and \<open>same_day_hour_moving_agg\<close> assign the column
  after the \<^verbatim>\<open>if len(hour_lags) > 0\<close> block: when all candidate lags of the first feature
  are excluded, \<^verbatim>\<open>tmp_df\<close> is still unbound and the call raises.
\<close>

theorem moving_quantile_unbound:
  assumes "moving_prepare datetime_col value_col forecast_creation_time = Inr (df, max_diff)"
    and "0 < count"
    and "hour_lags start_week window_size max_diff = []"
    and "agg_branch quantile std agg_func q' = Some agg"
  shows "same_day_hour_moving_quantile quantile datetime_col value_col window_size start_week
           count q forecast_creation_time prefix = Inl UnboundLocalError \<and>
         same_day_hour_moving_agg quantile std datetime_col value_col window_size start_week
           count forecast_creation_time agg_func q' prefix = Inl UnboundLocalError"
proof -
  have r: "py_range 0 count = 0 # py_range 1 count"
    using assms(2) by (simp add: py_range_def upto_rec1)
  have "foldl (unguarded_step (Some a) prefix window_size start_week max_diff) (Inr (df, None))
          (py_range 0 count) = Inl UnboundLocalError" for a
    unfolding r by (simp add: unguarded_step_def assms(3) foldl_unguarded_Inl)
  then show ?thesis
    by (simp add: same_day_hour_moving_quantile_def same_day_hour_moving_agg_def
        moving_unguarded_def assms(1,4))
qed

theorem moving_quantile_unbound_witness:
  "same_day_hour_moving_quantile (\<lambda>q r. None) [0, 3600, 7200] [Some 1, Some 2, Some 3] 1 0 2 (1 / 2)
     3600 ''moving_quatile_lag_'' = Inl UnboundLocalError \<and>
   same_day_hour_moving_agg (\<lambda>q r. None) (\<lambda>r. None) [0, 3600, 7200] [Some 1, Some 2, Some 3] 1 0 2
     3600 ''std'' None ''moving_agg_lag_'' = Inl UnboundLocalError"
proof -
  have h1: "moving_prepare [0, 3600, 7200] [Some 1, Some 2, Some 3] 3600 =
              Inr (\<lparr>index = [0, 3600, 7200],
                    columns = [(''value'', [Some 1, Some 2, Some 3]),
                               (''fct_diff'', [Some (- 1), Some 0, Some 1])]\<rparr>, 1)"
    by code_simp
  have h2: "(0::int) < 2" by simp
  have h3: "hour_lags 0 1 1 = []" by code_simp
  have h4: "agg_branch (\<lambda>q r. None) (\<lambda>r. None) ''std'' None = Some (\<lambda>r. None)"
    by (simp add: agg_branch_def)
  from moving_quantile_unbound[OF h1 h2 h3 h4, of "1 / 2" "''moving_quatile_lag_''"]
       moving_quantile_unbound[OF h1 h2 h3 h4, of "1 / 2" "''moving_agg_lag_''"]
  show ?thesis by blast
qed

text \<open>
  Claim C1 at a series of three hours with the forecast created at the second hour and
  one feature of one week starting at week 0. The only candidate lag, 0 hours, does not
  exceed the distance of one hour from the forecast creation time to the last
  timestamp and is excluded. \<open>same_day_hour_moving_average\<close> omits the column, as
  claimed; \<open>same_day_hour_moving_quantile\<close> and \<open>same_day_hour_moving_agg\<close> raise
  \<^verbatim>\<open>UnboundLocalError\<close> instead.
\<close>

theorem moving_quantile_excluded_lags:
  "same_day_hour_moving_average [0, 3600, 7200] [Some 1, Some 2, Some 3] 1 0 1 3600
     ''moving_average_lag_'' = Inr \<lparr>index = [0, 3600, 7200], columns = []\<rparr> \<and>
   same_day_hour_moving_quantile (\<lambda>q r. None) [0, 3600, 7200] [Some 1, Some 2, Some 3] 1 0 1 (1 / 2)
     3600 ''moving_quatile_lag_'' = Inl UnboundLocalError \<and>
   same_day_hour_moving_agg (\<lambda>q r. None) (\<lambda>r. None) [0, 3600, 7200] [Some 1, Some 2, Some 3] 1 0 1
     3600 ''mean'' None ''moving_agg_lag_'' = Inl UnboundLocalError"
  by code_simp

end
